theory Spec2Isabelle
  imports Complex_Main "HOL-Library.AList" "HOL-Library.Sublist" "HOL-Library.Multiset"
begin

section \<open>JavaScript values as the server handles them\<close>

text \<open>
  Every value the server reads from a request body or from the key-value store is JSON.
  A JSON number is represented by the rational it denotes; an object is the list of its
  properties, with at most one entry per name once built by \<open>assign\<close> or \<open>spread\<close>.
  A property that is absent reads as \<open>undefined\<close>, which is \<open>None\<close> here.
\<close>

datatype json =
    JNull
  | JBool bool
  | JNum rat
  | JStr string
  | JArr "json list"
  | JObj "(string \<times> json) list"

text \<open>The conversion to boolean behind \<open>!v\<close>, \<open>if (v)\<close> and \<open>v || w\<close>.\<close>

fun truthy :: "json \<Rightarrow> bool" where
  "truthy JNull = False"
| "truthy (JBool b) = b"
| "truthy (JNum q) = (q \<noteq> 0)"
| "truthy (JStr s) = (s \<noteq> [])"
| "truthy (JArr xs) = True"
| "truthy (JObj ps) = True"

text \<open>
  The property read \<open>v.name\<close> on a value that is not \<open>null\<close>, for the property names this
  server uses (none of them is \<open>length\<close> or an index): only an object has them.
\<close>

fun fld :: "json \<Rightarrow> string \<Rightarrow> json option" where
  "fld (JObj ps) k = map_of ps k"
| "fld v k = None"

fun is_obj :: "json \<Rightarrow> bool" where
  "is_obj (JObj ps) = True"
| "is_obj v = False"

datatype exn = TypeError

text \<open>
  The assignment \<open>v.name = w\<close> followed by serialisation of \<open>v\<close> to JSON. The server is an
  ES module, so the code is strict: assigning a property of a primitive throws. A property
  set on an array is not an index and is dropped by the serialisation.
\<close>

fun assign :: "string \<Rightarrow> json \<Rightarrow> json \<Rightarrow> exn + json" where
  "assign k w (JObj ps) = Inr (JObj (AList.update k w ps))"
| "assign k w (JArr xs) = Inr (JArr xs)"
| "assign k w v = Inl TypeError"

subsection \<open>Strings\<close>

definition digit_char :: "nat \<Rightarrow> char" where
  "digit_char d = char_of (48 + d)"

text \<open>The decimal rendering of a non-negative integer, as a template literal prints it.\<close>

fun show_nat :: "nat \<Rightarrow> string" where
  "show_nat n = (if n < 10 then [digit_char n] else show_nat (n div 10) @ [digit_char (n mod 10)])"

declare show_nat.simps [simp del]

text \<open>The number a string of decimal digits denotes.\<close>

definition read_nat :: "string \<Rightarrow> nat" where
  "read_nat s = foldl (\<lambda>acc c. 10 * acc + (of_char c - 48)) 0 s"

definition is_alnum :: "char \<Rightarrow> bool" where
  "is_alnum c = (let n = (of_char c :: nat)
                 in (97 \<le> n \<and> n \<le> 122) \<or> (65 \<le> n \<and> n \<le> 90) \<or> (48 \<le> n \<and> n \<le> 57))"

text \<open>\<open>fileName.replace(/[^a-zA-Z0-9.-]/g, "_")\<close>\<close>

definition sanitize :: "string \<Rightarrow> string" where
  "sanitize s = map (\<lambda>c. if is_alnum c \<or> c = CHR ''.'' \<or> c = CHR ''-'' then c else CHR ''_'') s"

text \<open>\<open>name.split(".").pop()\<close>: what follows the last dot, the whole name when it has none.\<close>

definition file_extension :: "string \<Rightarrow> string" where
  "file_extension name = rev (takeWhile (\<lambda>c. c \<noteq> CHR ''.'') (rev name))"

text \<open>
  The object spread \<open>{...v}\<close>: the own enumerable properties of \<open>v\<close>. A string and an array
  spread their elements under their indices; \<open>null\<close>, booleans and numbers spread nothing.
\<close>

fun indexed :: "nat \<Rightarrow> 'a list \<Rightarrow> (string \<times> 'a) list" where
  "indexed i [] = []"
| "indexed i (x # xs) = (show_nat i, x) # indexed (Suc i) xs"

fun spread :: "json \<Rightarrow> (string \<times> json) list" where
  "spread (JObj ps) = ps"
| "spread (JArr xs) = indexed 0 xs"
| "spread (JStr s) = indexed 0 (map (\<lambda>c. JStr [c]) s)"
| "spread v = []"

text \<open>
  \<open>{...a, ...b}\<close>: the properties of \<open>b\<close> are written over those of \<open>a\<close>, a new name after the
  names already there. The order in which the finished object lists them is \<open>js_order\<close>.
\<close>

definition merge_props :: "(string \<times> json) list \<Rightarrow> (string \<times> json) list \<Rightarrow> (string \<times> json) list" where
  "merge_props a b = fold (\<lambda>(k, v) acc. AList.update k v acc) b a"

text \<open>
  A property name is an array index when it is the canonical decimal form of an integer
  below \<open>2^32 - 1\<close>. An object lists its properties with the array indices first, in
  ascending order, and then the other names in the order of their creation.
\<close>

definition index_of :: "string \<Rightarrow> nat option" where
  "index_of k =
    (if show_nat (read_nat k) = k \<and> read_nat k < 2 ^ 32 - 1 then Some (read_nat k) else None)"

definition js_order :: "(string \<times> json) list \<Rightarrow> (string \<times> json) list" where
  "js_order ps =
    sort_key (\<lambda>p. case index_of (fst p) of Some n \<Rightarrow> n | None \<Rightarrow> 0)
      (filter (\<lambda>p. index_of (fst p) \<noteq> None) ps)
    @ filter (\<lambda>p. index_of (fst p) = None) ps"

subsection \<open>What the runtime supplies\<close>

text \<open>
  Three operations of the JavaScript runtime are parameters of the model:
  \<^item> \<open>toISOString t\<close> is \<open>new Date(t).toISOString()\<close> for the instant \<open>t\<close> in milliseconds;
  \<^item> \<open>date_parse v\<close> is \<open>new Date(v).getTime()\<close>, where \<open>None\<close> is \<open>NaN\<close>;
  \<^item> \<open>js_plus_one v\<close> is \<open>v + 1\<close> for a truthy \<open>v\<close> that is not an integer below \<open>2^53\<close> in
    magnitude (string concatenation, or floating-point addition that may round).
\<close>

record platform =
  toISOString :: "nat \<Rightarrow> string"
  date_parse :: "json option \<Rightarrow> int option"
  js_plus_one :: "json \<Rightarrow> json"

text \<open>Parsing a date inverts printing it.\<close>

definition platform_ok :: "platform \<Rightarrow> bool" where
  "platform_ok P = (\<forall>t. date_parse P (Some (JStr (toISOString P t))) = Some (int t))"

section \<open>The key-value store\<close>

text \<open>
  Modelled from the spec: the module \<open>kv_store.tsx\<close> is imported by the server and is not
  part of the sources. The spec describes it as a persistent mapping from string keys to
  structured records with get, set, delete and prefix scan. It is a list of rows with one
  row per key; \<open>get\<close> of a missing key is \<open>undefined\<close>, and no operation fails.
\<close>

type_synonym kv_store = "(string \<times> json) list"

definition kv_get :: "string \<Rightarrow> kv_store \<Rightarrow> json option" where
  "kv_get k st = map_of st k"

definition kv_set :: "string \<Rightarrow> json \<Rightarrow> kv_store \<Rightarrow> kv_store" where
  "kv_set k v st = AList.update k v st"

definition kv_del :: "string \<Rightarrow> kv_store \<Rightarrow> kv_store" where
  "kv_del k st = AList.delete k st"

definition getByPrefix :: "string \<Rightarrow> kv_store \<Rightarrow> json list" where
  "getByPrefix p st = map snd (filter (\<lambda>row. prefix p (fst row)) st)"

definition doc_key :: "string \<Rightarrow> string" where
  "doc_key d = ''document:'' @ d"

definition ana_key :: "string \<Rightarrow> string" where
  "ana_key d = ''analysis:'' @ d"

definition prof_key :: "string \<Rightarrow> string" where
  "prof_key u = ''user_profile:'' @ u"

section \<open>The state of the server\<close>

record js_file =
  file_name :: string
  file_type :: string
  file_size :: nat
  file_data :: string

record stage =
  stage_name :: string
  progress :: nat
  message :: string

text \<open>
  The control point of one call of \<open>simulateAnalysis\<close>. The function gives up control at
  each \<open>await\<close>; between two of them it runs alone. \<open>Loop_get sts\<close> is the head of the
  \<open>for\<close> loop with the stages \<open>sts\<close> still to do (after the loop when there is none),
  \<open>Loop_set sts v\<close> is the \<open>kv.set\<close> of the modified document \<open>v\<close>, \<open>Profile_get\<close> and
  \<open>Profile_set\<close> are the two calls of the statistics update, \<open>Crashed\<close> is an uncaught
  exception.
\<close>

datatype pc =
    Loop_get "stage list"
  | Loop_set "stage list" json
  | Profile_get
  | Profile_set json
  | Finished
  | Crashed

text \<open>
  \<open>kv\<close> is the store, \<open>bucket\<close> the objects uploaded to the storage bucket, \<open>runners\<close> the
  calls of \<open>simulateAnalysis\<close> started so far, by document identifier, each with its user
  identifier and control point. \<open>puts\<close> are the \<open>PUT /profile\<close> requests that have read the
  profile and have still to write it: the user and the profile to be written. \<open>writes\<close>
  records every call of \<open>kv.set\<close> in order; no operation reads it.
\<close>

record sys =
  kv :: kv_store
  bucket :: "(string \<times> js_file) list"
  runners :: "string \<Rightarrow> (string \<times> pc) option"
  puts :: "(string \<times> json) list"
  writes :: "(string \<times> json) list"

definition init_sys :: sys where
  "init_sys = \<lparr>kv = [], bucket = [], runners = (\<lambda>d. None), puts = [], writes = []\<rparr>"

definition kv_write :: "string \<Rightarrow> json \<Rightarrow> sys \<Rightarrow> sys" where
  "kv_write k v s = s\<lparr>kv := kv_set k v (kv s), writes := writes s @ [(k, v)]\<rparr>"

record response =
  status :: nat
  body :: json

definition json_response :: "json \<Rightarrow> response" where
  "json_response b = \<lparr>status = 200, body = b\<rparr>"

definition error_response :: "string \<Rightarrow> nat \<Rightarrow> response" where
  "error_response msg code = \<lparr>status = code, body = JObj [(''error'', JStr msg)]\<rparr>"

section \<open>The upload handler\<close>

text \<open>
  The handlers run behind \<open>requireAuth\<close>: they are given the identifier of the
  authenticated user. The upload handler is modelled from the point where the body has been
  read as a multipart form. An entry of the form is a text field or a file;
  \<open>formData.get\<close> of a missing field is \<open>null\<close>.
\<close>

datatype form_value = FText string | FFile js_file

record form =
  form_file :: "form_value option"
  form_fileName :: "form_value option"

text \<open>What the outside world answers during one upload: the clock, the identifier drawn by
  \<open>crypto.randomUUID()\<close>, and whether the storage service reports an error.\<close>

record upload_env =
  env_now :: nat
  env_uuid :: string
  env_upload_fails :: bool

definition allowedTypes :: "string list" where
  "allowedTypes =
    [''application/pdf'',
     ''application/vnd.openxmlformats-officedocument.wordprocessingml.document'',
     ''application/msword'']"

definition stages :: "stage list" where
  "stages =
    [\<lparr>stage_name = ''extracting'', progress = 25, message = ''Extracting clauses from document...''\<rparr>,
     \<lparr>stage_name = ''classifying'', progress = 50, message = ''Classifying clause types...''\<rparr>,
     \<lparr>stage_name = ''analyzing'', progress = 75, message = ''Analyzing risk factors...''\<rparr>,
     \<lparr>stage_name = ''complete'', progress = 100, message = ''Analysis complete''\<rparr>]"

text \<open>\<open>file.name\<close>, read before the handler has checked that there is a file: on \<open>null\<close> the
  read throws, on a text field it is \<open>undefined\<close>.\<close>

fun file_dot_name :: "form_value option \<Rightarrow> exn + form_value option" where
  "file_dot_name None = Inl TypeError"
| "file_dot_name (Some (FText t)) = Inr None"
| "file_dot_name (Some (FFile f)) = Inr (Some (FText (file_name f)))"

text \<open>\<open>formData.get("fileName") || file.name\<close>\<close>

fun pick_fileName :: "form \<Rightarrow> exn + form_value option" where
  "pick_fileName fd =
    (case form_fileName fd of
       None \<Rightarrow> file_dot_name (form_file fd)
     | Some (FText n) \<Rightarrow> if n \<noteq> [] then Inr (Some (FText n)) else file_dot_name (form_file fd)
     | Some (FFile g) \<Rightarrow> Inr (Some (FFile g)))"

definition new_document :: "platform \<Rightarrow> string \<Rightarrow> string \<Rightarrow> string \<Rightarrow> js_file \<Rightarrow> upload_env \<Rightarrow> json" where
  "new_document P userId fileName uniqueFileName f e =
    JObj [(''id'', JStr (env_uuid e)),
          (''user_id'', JStr userId),
          (''name'', JStr fileName),
          (''file_path'', JStr uniqueFileName),
          (''file_type'', JStr (file_type f)),
          (''file_size'', JNum (of_nat (file_size f))),
          (''uploaded_at'', JStr (toISOString P (env_now e))),
          (''analysis_status'', JStr ''pending''),
          (''analysis_progress'', JNum 0)]"

text \<open>\<open>setTimeout(() => simulateAnalysis(documentId, userId), 1000)\<close>\<close>

definition schedule :: "string \<Rightarrow> string \<Rightarrow> sys \<Rightarrow> sys" where
  "schedule d u s = s\<lparr>runners := (runners s)(d \<mapsto> (u, Loop_get stages))\<rparr>"

definition invalid_type_msg :: string where
  "invalid_type_msg = ''Invalid file type. Please upload PDF or Word documents only.''"

text \<open>The body of the \<open>try\<close> block.\<close>

definition upload_try :: "platform \<Rightarrow> string \<Rightarrow> form \<Rightarrow> upload_env \<Rightarrow> sys \<Rightarrow> exn + (response \<times> sys)" where
  "upload_try P userId fd e s =
    (case pick_fileName fd of
       Inl x \<Rightarrow> Inl x
     | Inr fileName \<Rightarrow>
        (case form_file fd of
           None \<Rightarrow> Inr (error_response ''No file provided'' 400, s)
         | Some (FText t) \<Rightarrow>
             if t = [] then Inr (error_response ''No file provided'' 400, s)
             else Inr (error_response invalid_type_msg 400, s)
         | Some (FFile f) \<Rightarrow>
             if file_type f \<notin> set allowedTypes then Inr (error_response invalid_type_msg 400, s)
             else
              (case fileName of
                 Some (FText n) \<Rightarrow>
                   (let fileExtension = file_extension (file_name f);
                        uniqueFileName = userId @ ''/'' @ show_nat (env_now e) @ ''_'' @ sanitize n
                                         @ ''.'' @ fileExtension
                    in if env_upload_fails e
                       then Inr (error_response ''Failed to upload document'' 500, s)
                       else
                        (let s1 = s\<lparr>bucket := bucket s @ [(uniqueFileName, f)]\<rparr>;
                             document = new_document P userId n uniqueFileName f e;
                             s2 = kv_write (doc_key (env_uuid e)) document s1;
                             s3 = schedule (env_uuid e) userId s2
                         in Inr (json_response (JObj [(''document'', document)]), s3)))
               | _ \<Rightarrow> Inl TypeError)))"

definition upload_handler :: "platform \<Rightarrow> string \<Rightarrow> form \<Rightarrow> upload_env \<Rightarrow> sys \<Rightarrow> response \<times> sys" where
  "upload_handler P userId fd e s =
    (case upload_try P userId fd e s of
       Inl x \<Rightarrow> (error_response ''Failed to process document upload'' 500, s)
     | Inr r \<Rightarrow> r)"

section \<open>The profile handlers\<close>

definition opt_prop :: "string \<Rightarrow> json option \<Rightarrow> (string \<times> json) list" where
  "opt_prop k v = (case v of None \<Rightarrow> [] | Some w \<Rightarrow> [(k, w)])"

definition new_profile :: "platform \<Rightarrow> string \<Rightarrow> json option \<Rightarrow> json option \<Rightarrow> nat \<Rightarrow> json" where
  "new_profile P uid email name now =
    JObj ((''id'', JStr uid) # opt_prop ''email'' email @ opt_prop ''name'' name @
          [(''created_at'', JStr (toISOString P now)),
           (''documents_analyzed'', JNum 0),
           (''subscription_tier'', JStr ''free'')])"

text \<open>
  \<open>POST /auth/signup\<close>. The request body is \<open>None\<close> when it is not JSON, and \<open>created\<close> is
  the answer of the identity provider: the identifier of the new user, or \<open>None\<close> for an
  error. The user object of the response is represented by its identifier.
\<close>

definition signup_handler :: "platform \<Rightarrow> json option \<Rightarrow> string option \<Rightarrow> nat \<Rightarrow> sys \<Rightarrow> response \<times> sys" where
  "signup_handler P req created now s =
    (case req of
       None \<Rightarrow> (error_response ''Failed to process signup request'' 500, s)
     | Some JNull \<Rightarrow> (error_response ''Failed to process signup request'' 500, s)
     | Some b \<Rightarrow>
        (case created of
           None \<Rightarrow> (error_response ''Failed to create user account'' 400, s)
         | Some uid \<Rightarrow>
             (json_response (JObj [(''user'', JObj [(''id'', JStr uid)])]),
              kv_write (prof_key uid) (new_profile P uid (fld b ''email'') (fld b ''name'') now) s)))"

text \<open>
  \<open>PUT /profile\<close> for the authenticated user \<open>userId\<close>. The handler awaits \<open>kv.get\<close>,
  builds the updated profile, and awaits \<open>kv.set\<close>: two store calls, and other requests
  and runners take their steps between them. \<open>put_profile_read\<close> is the handler up to the
  call of \<open>kv.set\<close>: it ends with an answer (\<open>Inl\<close>) or with the profile to be written
  (\<open>Inr\<close>); \<open>put_profile_write\<close> is the rest.
\<close>

definition put_profile_read :: "platform \<Rightarrow> string \<Rightarrow> json option \<Rightarrow> nat \<Rightarrow> sys \<Rightarrow> response + json" where
  "put_profile_read P userId req now s =
    (case req of
       None \<Rightarrow> Inl (error_response ''Failed to update profile'' 500)
     | Some updates \<Rightarrow>
        (case kv_get (prof_key userId) (kv s) of
           None \<Rightarrow> Inl (error_response ''Profile not found'' 404)
         | Some currentProfile \<Rightarrow>
             if \<not> truthy currentProfile then Inl (error_response ''Profile not found'' 404)
             else Inr (JObj (js_order
                        (AList.update ''updated_at'' (JStr (toISOString P now))
                           (merge_props (spread currentProfile) (spread updates)))))))"

definition put_profile_write :: "string \<Rightarrow> json \<Rightarrow> sys \<Rightarrow> response \<times> sys" where
  "put_profile_write userId updatedProfile s =
    (json_response (JObj [(''profile'', updatedProfile)]),
     kv_write (prof_key userId) updatedProfile s)"

text \<open>The whole handler when nothing happens between its two store calls.\<close>

definition put_profile_handler :: "platform \<Rightarrow> string \<Rightarrow> json option \<Rightarrow> nat \<Rightarrow> sys \<Rightarrow> response \<times> sys" where
  "put_profile_handler P userId req now s =
    (case put_profile_read P userId req now s of
       Inl r \<Rightarrow> (r, s)
     | Inr updatedProfile \<Rightarrow> put_profile_write userId updatedProfile s)"

section \<open>The document handlers\<close>

text \<open>
  The comparator of \<open>GET /documents\<close>, \<open>new Date(b.uploaded_at).getTime() -
  new Date(a.uploaded_at).getTime()\<close>; \<open>sort\<close> takes a result that is \<open>NaN\<close> for \<open>0\<close>.
\<close>

definition by_upload_desc :: "platform \<Rightarrow> json \<Rightarrow> json \<Rightarrow> int" where
  "by_upload_desc P a b =
    (case (date_parse P (fld b ''uploaded_at''), date_parse P (fld a ''uploaded_at'')) of
       (Some tb, Some ta) \<Rightarrow> tb - ta
     | _ \<Rightarrow> 0)"

text \<open>
  \<open>Array.prototype.sort\<close> is stable. For a comparator that is a consistent order there is
  one stable sorted arrangement, which insertion from the right computes; for any other
  comparator the language leaves the arrangement to the implementation, and this is one.
\<close>

fun insert_by :: "('a \<Rightarrow> 'a \<Rightarrow> int) \<Rightarrow> 'a \<Rightarrow> 'a list \<Rightarrow> 'a list" where
  "insert_by cmp x [] = [x]"
| "insert_by cmp x (y # ys) = (if cmp x y \<le> 0 then x # y # ys else y # insert_by cmp x ys)"

definition js_sort :: "('a \<Rightarrow> 'a \<Rightarrow> int) \<Rightarrow> 'a list \<Rightarrow> 'a list" where
  "js_sort cmp xs = foldr (insert_by cmp) xs []"

text \<open>\<open>GET /documents\<close>. Reading \<open>doc.user_id\<close> throws when a row holds \<open>null\<close>.\<close>

definition documents_handler :: "platform \<Rightarrow> string \<Rightarrow> sys \<Rightarrow> response" where
  "documents_handler P userId s =
    (let documents = getByPrefix ''document:'' (kv s)
     in if JNull \<in> set documents then error_response ''Failed to fetch documents'' 500
        else
         (let userDocuments =
                js_sort (by_upload_desc P)
                  (filter (\<lambda>doc. fld doc ''user_id'' = Some (JStr userId)) documents)
          in json_response (JObj [(''documents'', JArr userDocuments)])))"

text \<open>\<open>GET /documents/:id/analysis\<close>. An analysis that is not there is \<open>undefined\<close>, and the
  property is left out of the body.\<close>

definition analysis_handler :: "string \<Rightarrow> string \<Rightarrow> sys \<Rightarrow> response" where
  "analysis_handler userId documentId s =
    (case kv_get (doc_key documentId) (kv s) of
       None \<Rightarrow> error_response ''Document not found'' 404
     | Some document \<Rightarrow>
         if \<not> truthy document \<or> fld document ''user_id'' \<noteq> Some (JStr userId)
         then error_response ''Document not found'' 404
         else json_response
                (JObj (opt_prop ''analysis'' (kv_get (ana_key documentId) (kv s)))))"

section \<open>The analysis stage runner\<close>

definition mock_analysis :: "platform \<Rightarrow> string \<Rightarrow> nat \<Rightarrow> json" where
  "mock_analysis P documentId now =
    JObj [(''document_id'', JStr documentId),
          (''clauses'', JArr
            [JObj [(''id'', JStr ''1''),
                   (''type'', JStr ''liability''),
                   (''text'', JStr ''The Company shall not be liable for any indirect, incidental, special, consequential, or punitive damages...''),
                   (''risk_score'', JNum 7),
                   (''explanation'', JStr ''High risk - Very broad liability limitation that may not be enforceable in all jurisdictions.''),
                   (''suggestions'', JArr [JStr ''Consider mutual liability limitations'',
                                           JStr ''Add carve-outs for gross negligence''])],
             JObj [(''id'', JStr ''2''),
                   (''type'', JStr ''termination''),
                   (''text'', JStr ''Either party may terminate this agreement with thirty (30) days written notice...''),
                   (''risk_score'', JNum 4),
                   (''explanation'', JStr ''Medium risk - Standard termination clause but lacks specific breach triggers.''),
                   (''suggestions'', JArr [JStr ''Add termination for cause provisions'',
                                           JStr ''Specify cure periods''])],
             JObj [(''id'', JStr ''3''),
                   (''type'', JStr ''confidentiality''),
                   (''text'', JStr ''Each party agrees to maintain in confidence all Confidential Information...''),
                   (''risk_score'', JNum 2),
                   (''explanation'', JStr ''Low risk - Well-structured confidentiality provision with proper definitions.''),
                   (''suggestions'', JArr [JStr ''Consider adding return of materials clause''])]]),
          (''summary'', JStr ''This contract contains standard commercial terms with some areas requiring attention. The liability limitation clause is particularly broad and may need revision.''),
          (''overall_risk_score'', JNum (43 / 10)),
          (''missing_clauses'', JArr [JStr ''Force Majeure'', JStr ''Dispute Resolution'', JStr ''Governing Law'']),
          (''compliance_score'', JNum 78),
          (''analyzed_at'', JStr (toISOString P now))]"

text \<open>The two assignments of a loop iteration.\<close>

definition set_stage :: "stage \<Rightarrow> json \<Rightarrow> exn + json" where
  "set_stage st document =
    (case assign ''analysis_status'' (JStr (stage_name st)) document of
       Inl x \<Rightarrow> Inl x
     | Inr d1 \<Rightarrow> assign ''analysis_progress'' (JNum (of_nat (progress st))) d1)"

definition safe_int :: "rat \<Rightarrow> bool" where
  "safe_int q = (of_int \<lfloor>q\<rfloor> = q \<and> \<bar>q\<bar> < 2 ^ 53)"

text \<open>\<open>(profile.documents_analyzed || 0) + 1\<close>\<close>

fun counter_next :: "platform \<Rightarrow> json option \<Rightarrow> json" where
  "counter_next P None = JNum 1"
| "counter_next P (Some (JNum q)) =
     (if q = 0 then JNum 1 else if safe_int q then JNum (q + 1) else js_plus_one P (JNum q))"
| "counter_next P (Some v) = (if truthy v then js_plus_one P v else JNum 1)"

text \<open>
  One step of \<open>simulateAnalysis(documentId, userId)\<close> from a control point: the code up to
  the next \<open>await\<close> of a store call, at time \<open>now\<close>.
\<close>

fun runner_step :: "platform \<Rightarrow> nat \<Rightarrow> string \<Rightarrow> string \<Rightarrow> pc \<Rightarrow> sys \<Rightarrow> pc \<times> sys" where
  "runner_step P now documentId userId (Loop_get (st # rest)) s =
    (case kv_get (doc_key documentId) (kv s) of
       None \<Rightarrow> (Loop_get rest, s)
     | Some document \<Rightarrow>
         if truthy document then
           (case set_stage st document of
              Inl x \<Rightarrow> (Crashed, s)
            | Inr document' \<Rightarrow> (Loop_set rest document', s))
         else (Loop_get rest, s))"
| "runner_step P now documentId userId (Loop_set rest document) s =
    (Loop_get rest, kv_write (doc_key documentId) document s)"
| "runner_step P now documentId userId (Loop_get []) s =
    (Profile_get, kv_write (ana_key documentId) (mock_analysis P documentId now) s)"
| "runner_step P now documentId userId Profile_get s =
    (case kv_get (prof_key userId) (kv s) of
       None \<Rightarrow> (Finished, s)
     | Some profile \<Rightarrow>
         if truthy profile then
           (case assign ''documents_analyzed''
                   (counter_next P (fld profile ''documents_analyzed'')) profile of
              Inl x \<Rightarrow> (Crashed, s)
            | Inr profile' \<Rightarrow> (Profile_set profile', s))
         else (Finished, s))"
| "runner_step P now documentId userId (Profile_set profile) s =
    (Finished, kv_write (prof_key userId) profile s)"
| "runner_step P now documentId userId Finished s = (Finished, s)"
| "runner_step P now documentId userId Crashed s = (Crashed, s)"

text \<open>The runner of document \<open>d\<close>, if there is one, takes one step.\<close>

definition tick :: "platform \<Rightarrow> nat \<Rightarrow> string \<Rightarrow> sys \<Rightarrow> sys" where
  "tick P now d s =
    (case runners s d of
       None \<Rightarrow> s
     | Some (u, p) \<Rightarrow>
        (let (p', s') = runner_step P now d u p s
         in s'\<lparr>runners := (runners s')(d \<mapsto> (u, p'))\<rparr>))"

section \<open>The system as a whole\<close>

text \<open>
  The requests that change the state, the steps of the runners, and the deletion of a
  Document record by something outside the server (the server itself never deletes).
  A step is what happens at one store call. The signup and upload handlers make one store
  call each and are one step; \<open>PUT /profile\<close> reads and then writes, and is two steps:
  \<open>PutRead\<close>, and \<open>PutWrite i\<close> for the write of the \<open>i\<close>-th request that is waiting to write.
\<close>

datatype action =
    Signup "json option" "string option" nat
  | PutRead string "json option" nat
  | PutWrite nat
  | Upload string form upload_env
  | Tick string nat
  | Delete string

fun exec :: "platform \<Rightarrow> action \<Rightarrow> sys \<Rightarrow> sys" where
  "exec P (Signup req created now) s = snd (signup_handler P req created now s)"
| "exec P (PutRead userId req now) s =
    (case put_profile_read P userId req now s of
       Inl r \<Rightarrow> s
     | Inr updatedProfile \<Rightarrow> s\<lparr>puts := puts s @ [(userId, updatedProfile)]\<rparr>)"
| "exec P (PutWrite i) s =
    (if i < length (puts s)
     then (snd (put_profile_write (fst (puts s ! i)) (snd (puts s ! i)) s))
            \<lparr>puts := take i (puts s) @ drop (Suc i) (puts s)\<rparr>
     else s)"
| "exec P (Upload userId fd e) s = snd (upload_handler P userId fd e s)"
| "exec P (Tick d now) s = tick P now d s"
| "exec P (Delete d) s = s\<lparr>kv := kv_del (doc_key d) (kv s)\<rparr>"

text \<open>
  When an action can happen. The identity provider never issues an identifier twice, and
  \<open>crypto.randomUUID()\<close> is taken to return an identifier it has not returned before.
  With \<open>del\<close> false, nothing outside the server deletes a record.
\<close>

fun enabled :: "bool \<Rightarrow> action \<Rightarrow> sys \<Rightarrow> bool" where
  "enabled del (Signup req created now) s =
     (case created of None \<Rightarrow> True | Some uid \<Rightarrow> kv_get (prof_key uid) (kv s) = None)"
| "enabled del (PutRead userId req now) s = True"
| "enabled del (PutWrite i) s = True"
| "enabled del (Upload userId fd e) s = (runners s (env_uuid e) = None)"
| "enabled del (Tick d now) s = True"
| "enabled del (Delete d) s = del"

inductive reachable :: "platform \<Rightarrow> bool \<Rightarrow> sys \<Rightarrow> bool" for P :: platform and del :: bool where
  reachable_init: "reachable P del init_sys"
| reachable_step: "reachable P del s \<Longrightarrow> enabled del a s \<Longrightarrow> reachable P del (exec P a s)"

fun execs :: "platform \<Rightarrow> action list \<Rightarrow> sys \<Rightarrow> sys" where
  "execs P [] s = s"
| "execs P (a # as) s = execs P as (exec P a s)"

fun all_enabled :: "platform \<Rightarrow> bool \<Rightarrow> action list \<Rightarrow> sys \<Rightarrow> bool" where
  "all_enabled P del [] s = True"
| "all_enabled P del (a # as) s = (enabled del a s \<and> all_enabled P del as (exec P a s))"

section \<open>Invariants of the reachable states\<close>

text \<open>A document value carries the status and progress of stage \<open>st\<close>.\<close>

definition staged :: "stage \<Rightarrow> json \<Rightarrow> bool" where
  "staged st v = (fld v ''analysis_status'' = Some (JStr (stage_name st))
                \<and> fld v ''analysis_progress'' = Some (JNum (of_nat (progress st))))"

text \<open>
  \<open>pc_done p sts\<close>: at control point \<open>p\<close> the loop has gone through the stages \<open>sts\<close>
  (each one written, or skipped because the record was not there).
\<close>

fun pc_done :: "pc \<Rightarrow> stage list \<Rightarrow> bool" where
  "pc_done (Loop_get rest) done = (stages = done @ rest)"
| "pc_done (Loop_set rest v) done = (\<exists>st. stages = done @ st # rest \<and> staged st v)"
| "pc_done Profile_get done = (done = stages)"
| "pc_done (Profile_set v) done = (done = stages)"
| "pc_done Finished done = (done = stages)"
| "pc_done Crashed done = False"

definition pc_wf :: "pc \<Rightarrow> bool" where
  "pc_wf p = (\<exists>done. pc_done p done)"

fun past_loop :: "pc \<Rightarrow> bool" where
  "past_loop (Loop_get rest) = (rest = [])"
| "past_loop (Loop_set rest v) = False"
| "past_loop Crashed = False"
| "past_loop p = True"

fun analysed :: "pc \<Rightarrow> bool" where
  "analysed Profile_get = True"
| "analysed (Profile_set v) = True"
| "analysed Finished = True"
| "analysed p = False"

definition is_complete :: "json \<Rightarrow> bool" where
  "is_complete v = (fld v ''analysis_status'' = Some (JStr ''complete'')
                  \<and> fld v ''analysis_progress'' = Some (JNum 100))"

definition doc_wf :: "platform \<Rightarrow> string \<Rightarrow> json \<Rightarrow> bool" where
  "doc_wf P u v = (is_obj v \<and> fld v ''user_id'' = Some (JStr u)
                 \<and> (\<exists>t. fld v ''uploaded_at'' = Some (JStr (toISOString P t))))"

fun pc_local :: "platform \<Rightarrow> string \<Rightarrow> pc \<Rightarrow> bool" where
  "pc_local P u (Loop_set rest v) = doc_wf P u v"
| "pc_local P u (Profile_set v) = is_obj v"
| "pc_local P u p = True"

text \<open>
  What holds for the records of document \<open>d\<close> while its runner, started for user \<open>u\<close>, is
  at control point \<open>p\<close>; and, in \<open>idle_inv\<close>, while no runner has been started for \<open>d\<close>.
\<close>

definition runner_inv :: "platform \<Rightarrow> kv_store \<Rightarrow> string \<Rightarrow> string \<Rightarrow> pc \<Rightarrow> bool" where
  "runner_inv P st d u p =
    (pc_wf p \<and> pc_local P u p
   \<and> (\<forall>v. kv_get (doc_key d) st = Some v \<longrightarrow> doc_wf P u v \<and> (past_loop p \<longrightarrow> is_complete v))
   \<and> (if analysed p then \<exists>t. kv_get (ana_key d) st = Some (mock_analysis P d t)
       else kv_get (ana_key d) st = None))"

definition idle_inv :: "kv_store \<Rightarrow> string \<Rightarrow> bool" where
  "idle_inv st d = (kv_get (doc_key d) st = None \<and> kv_get (ana_key d) st = None)"

definition doc_inv :: "platform \<Rightarrow> kv_store \<Rightarrow> (string \<Rightarrow> (string \<times> pc) option) \<Rightarrow> string \<Rightarrow> bool" where
  "doc_inv P st rs d = (case rs d of None \<Rightarrow> idle_inv st d | Some (u, p) \<Rightarrow> runner_inv P st d u p)"

definition prof_inv :: "kv_store \<Rightarrow> bool" where
  "prof_inv st = (\<forall>u v. kv_get (prof_key u) st = Some v \<longrightarrow> is_obj v)"

definition inv_store :: "platform \<Rightarrow> sys \<Rightarrow> bool" where
  "inv_store P s =
    (distinct (map fst (kv s)) \<and> prof_inv (kv s) \<and> (\<forall>x \<in> set (puts s). is_obj (snd x))
     \<and> (\<forall>d. doc_inv P (kv s) (runners s) d))"

text \<open>
  While the runner of a document is in its loop, the Document record does not show the
  status \<open>complete\<close>.
\<close>

definition not_complete_inv :: "sys \<Rightarrow> string \<Rightarrow> bool" where
  "not_complete_inv s d =
    (\<forall>u p v. runners s d = Some (u, p) \<and> \<not> past_loop p \<and> kv_get (doc_key d) (kv s) = Some v
        \<longrightarrow> fld v ''analysis_status'' \<noteq> Some (JStr ''complete''))"

text \<open>What one step of a runner does to the store.\<close>

definition step_effect :: "string \<Rightarrow> string \<Rightarrow> sys \<Rightarrow> sys \<Rightarrow> bool" where
  "step_effect d u s s' =
    (s' = s \<or> (\<exists>k v. s' = kv_write k v s
                  \<and> (k = doc_key d \<or> k = ana_key d \<or> (k = prof_key u \<and> is_obj v))))"

text \<open>Whether a document has an Analysis record, and the status its Document record shows.\<close>

definition has_analysis :: "sys \<Rightarrow> string \<Rightarrow> bool" where
  "has_analysis s d = (kv_get (ana_key d) (kv s) \<noteq> None)"

definition doc_status :: "sys \<Rightarrow> string \<Rightarrow> json option" where
  "doc_status s d = (case kv_get (doc_key d) (kv s) of None \<Rightarrow> None | Some v \<Rightarrow> fld v ''analysis_status'')"

definition status_complete :: "sys \<Rightarrow> string \<Rightarrow> bool" where
  "status_complete s d = (doc_status s d = Some (JStr ''complete''))"

text \<open>
  For \<open>GET /documents\<close>: the owner of a Document record, the instant of its upload, and
  the order "newest first".
\<close>

definition owned_by :: "string \<Rightarrow> json \<Rightarrow> bool" where
  "owned_by userId v = (fld v ''user_id'' = Some (JStr userId))"

definition upload_ms :: "platform \<Rightarrow> json \<Rightarrow> int option" where
  "upload_ms P v = date_parse P (fld v ''uploaded_at'')"

definition newest_first :: "platform \<Rightarrow> json \<Rightarrow> json \<Rightarrow> bool" where
  "newest_first P a b = (\<exists>ta tb. upload_ms P a = Some ta \<and> upload_ms P b = Some tb \<and> tb \<le> ta)"

text \<open>The \<open>documents_analyzed\<close> counter in the stored profile of a user.\<close>

definition counter_of :: "sys \<Rightarrow> string \<Rightarrow> json option" where
  "counter_of s u =
    (case kv_get (prof_key u) (kv s) of None \<Rightarrow> None | Some p \<Rightarrow> fld p ''documents_analyzed'')"

text \<open>
  The runner of document \<open>d\<close> taking its steps at the times \<open>ts\<close> with nothing else
  happening in between.
\<close>

definition run_alone :: "platform \<Rightarrow> string \<Rightarrow> nat list \<Rightarrow> sys \<Rightarrow> sys" where
  "run_alone P d ts s = execs P (map (Tick d) ts) s"

text \<open>The number of steps a runner at a control point has still to take.\<close>

fun steps_left :: "pc \<Rightarrow> nat" where
  "steps_left (Loop_get rest) = 3 + 2 * length rest"
| "steps_left (Loop_set rest v) = 4 + 2 * length rest"
| "steps_left Profile_get = 2"
| "steps_left (Profile_set v) = 1"
| "steps_left Finished = 0"
| "steps_left Crashed = 0"

text \<open>The profile after the statistics update of a runner.\<close>

definition bumped :: "platform \<Rightarrow> json \<Rightarrow> json" where
  "bumped P pr =
    (case assign ''documents_analyzed'' (counter_next P (fld pr ''documents_analyzed'')) pr of
       Inl x \<Rightarrow> pr
     | Inr pr' \<Rightarrow> pr')"

text \<open>Whether an action is a step of the runner of document \<open>d\<close>.\<close>

fun is_tick_of :: "string \<Rightarrow> action \<Rightarrow> bool" where
  "is_tick_of d (Tick d' t) = (d' = d)"
| "is_tick_of d a = False"

text \<open>
  \<open>quiet P d u as s\<close>: along the actions \<open>as\<close> from the state \<open>s\<close>, every action that is not
  a step of the runner of \<open>d\<close> leaves the stored profile of user \<open>u\<close> as it is.
\<close>

fun quiet :: "platform \<Rightarrow> string \<Rightarrow> string \<Rightarrow> action list \<Rightarrow> sys \<Rightarrow> bool" where
  "quiet P d u [] s = True"
| "quiet P d u (a # as) s =
     ((is_tick_of d a \<or> kv_get (prof_key u) (kv (exec P a s)) = kv_get (prof_key u) (kv s))
      \<and> quiet P d u as (exec P a s))"

text \<open>
  The stored profile of user \<open>u\<close> along such a run, by the control point of the runner:
  \<open>pr0\<close> is the profile at the start of the run.
\<close>

fun prof_phase :: "platform \<Rightarrow> string \<Rightarrow> json option \<Rightarrow> pc \<Rightarrow> sys \<Rightarrow> bool" where
  "prof_phase P u pr0 (Profile_set v) s =
     (kv_get (prof_key u) (kv s) = pr0 \<and> (\<exists>pr. pr0 = Some pr \<and> v = bumped P pr))"
| "prof_phase P u pr0 Finished s = (kv_get (prof_key u) (kv s) = map_option (bumped P) pr0)"
| "prof_phase P u pr0 Crashed s = False"
| "prof_phase P u pr0 p s = (kv_get (prof_key u) (kv s) = pr0)"

text \<open>
  The status and progress of a document value, and the history of a document: the status
  and progress of every value written under its key, in the order of the writes.
\<close>

definition doc_state :: "json \<Rightarrow> json option \<times> json option" where
  "doc_state v = (fld v ''analysis_status'', fld v ''analysis_progress'')"

definition hist :: "sys \<Rightarrow> string \<Rightarrow> (json option \<times> json option) list" where
  "hist s d = map (\<lambda>w. doc_state (snd w)) (filter (\<lambda>w. fst w = doc_key d) (writes s))"

text \<open>The sequence of status and progress values as the specification gives it.\<close>

definition status_sequence :: "(string \<times> nat) list" where
  "status_sequence =
    [(''pending'', 0), (''extracting'', 25), (''classifying'', 50), (''analyzing'', 75),
     (''complete'', 100)]"

definition as_state :: "string \<times> nat \<Rightarrow> json option \<times> json option" where
  "as_state x = (Some (JStr (fst x)), Some (JNum (of_nat (snd x))))"

definition stage_pair :: "stage \<Rightarrow> string \<times> nat" where
  "stage_pair st = (stage_name st, progress st)"

text \<open>
  While nothing deletes a Document record, the history of a document is the pending state
  followed by the states of the stages its runner has gone through.
\<close>

definition hist_inv :: "sys \<Rightarrow> string \<Rightarrow> bool" where
  "hist_inv s d =
    (case runners s d of
       None \<Rightarrow> hist s d = []
     | Some (u, p) \<Rightarrow>
         kv_get (doc_key d) (kv s) \<noteq> None
       \<and> (\<exists>dn. pc_done p dn \<and> hist s d = map as_state ((''pending'', 0) # map stage_pair dn)))"

section \<open>Example data\<close>

text \<open>
  A stand-in runtime for evaluating the model on examples. It prints an instant as its
  decimal number of milliseconds instead of the ISO format, and reads it back.
\<close>
definition test_platform :: platform where
  "test_platform =
    \<lparr>toISOString = show_nat,
     date_parse = (\<lambda>v. case v of Some (JStr s) \<Rightarrow> Some (int (read_nat s)) | _ \<Rightarrow> None),
     js_plus_one = (\<lambda>v. case v of JStr s \<Rightarrow> JStr (s @ ''1'') | _ \<Rightarrow> JNull)\<rparr>"

definition pdf_file :: js_file where
  "pdf_file = \<lparr>file_name = ''contract.pdf'', file_type = ''application/pdf'',
               file_size = 2048, file_data = ''%PDF-1.7''\<rparr>"

definition txt_file :: js_file where
  "txt_file = \<lparr>file_name = ''notes.txt'', file_type = ''text/plain'',
               file_size = 5, file_data = ''hello''\<rparr>"

definition form_of :: "js_file \<Rightarrow> form" where
  "form_of f = \<lparr>form_file = Some (FFile f), form_fileName = None\<rparr>"

text \<open>A form whose display name is a file part.\<close>

definition file_named_by_file :: form where
  "file_named_by_file = \<lparr>form_file = Some (FFile pdf_file), form_fileName = Some (FFile txt_file)\<rparr>"

definition env_at :: "nat \<Rightarrow> string \<Rightarrow> upload_env" where
  "env_at t d = \<lparr>env_now = t, env_uuid = d, env_upload_fails = False\<rparr>"

text \<open>One upload by user \<open>u1\<close>, and the states after eight and nine steps of its runner.\<close>

definition ticks :: "string \<Rightarrow> nat \<Rightarrow> nat \<Rightarrow> action list" where
  "ticks d t n = map (\<lambda>i. Tick d (t + i)) [0..<n]"

definition upload_d1 :: action where
  "upload_d1 = Upload ''u1'' (form_of pdf_file) (env_at 1000 ''d1'')"

definition sys_stages_done :: sys where
  "sys_stages_done = execs test_platform (upload_d1 # ticks ''d1'' 2000 8) init_sys"

definition sys_analysed :: sys where
  "sys_analysed = execs test_platform (upload_d1 # ticks ''d1'' 2000 9) init_sys"

text \<open>Three uploads, the second one by another user.\<close>

definition three_uploads :: "action list" where
  "three_uploads =
    [Upload ''u1'' (form_of pdf_file) (env_at 1000 ''d1''),
     Upload ''u2'' (form_of pdf_file) (env_at 1500 ''d2''),
     Upload ''u1'' (form_of pdf_file) (env_at 2000 ''d3'')]"

definition sys_three :: sys where
  "sys_three = execs test_platform three_uploads init_sys"

text \<open>The signup of user \<open>u1\<close>.\<close>

definition signup_u1 :: action where
  "signup_u1 = Signup (Some (JObj [(''email'', JStr ''ann@example.org''), (''password'', JStr ''pw''),
                                   (''name'', JStr ''Ann'')])) (Some ''u1'') 500"

definition sys_signed_up :: sys where
  "sys_signed_up = exec test_platform signup_u1 init_sys"

text \<open>A signup and one, then two uploads of the same user; and both analysed in turn.\<close>

definition upload_d2 :: action where
  "upload_d2 = Upload ''u1'' (form_of pdf_file) (env_at 1500 ''d2'')"

definition sys_one_pending :: sys where
  "sys_one_pending = execs test_platform [signup_u1, upload_d1] init_sys"

definition sys_two_pending :: sys where
  "sys_two_pending = execs test_platform [signup_u1, upload_d1, upload_d2] init_sys"

definition sys_two_done :: sys where
  "sys_two_done = execs test_platform (ticks ''d1'' 2000 11 @ ticks ''d2'' 3000 11) sys_two_pending"

text \<open>
  Two runs from the state with one pending document: a profile update read before and
  written after the analysis; and the analysis with an upload of another user in between.
\<close>

definition lost_increment_run :: "action list" where
  "lost_increment_run =
    PutRead ''u1'' (Some (JObj [(''name'', JStr ''Ann B'')])) 1500 # ticks ''d1'' 2000 11 @ [PutWrite 0]"

definition interleaved_run :: "action list" where
  "interleaved_run =
    ticks ''d1'' 2000 4 @ [Upload ''u2'' (form_of pdf_file) (env_at 2500 ''d9'')] @ ticks ''d1'' 3000 7"

section \<open>Keys and store operations\<close>

lemma key_simps [simp]:
  "doc_key d = doc_key d' \<longleftrightarrow> d = d'"
  "ana_key d = ana_key d' \<longleftrightarrow> d = d'"
  "prof_key d = prof_key d' \<longleftrightarrow> d = d'"
  "doc_key d \<noteq> ana_key d'" "ana_key d' \<noteq> doc_key d"
  "doc_key d \<noteq> prof_key d'" "prof_key d' \<noteq> doc_key d"
  "ana_key d \<noteq> prof_key d'" "prof_key d' \<noteq> ana_key d"
  by (simp_all add: doc_key_def ana_key_def prof_key_def)

lemma kv_get_set [simp]: "kv_get k (kv_set k' v st) = (if k = k' then Some v else kv_get k st)"
  by (simp add: kv_get_def kv_set_def update_conv')

lemma kv_get_del [simp]: "kv_get k (kv_del k' st) = (if k = k' then None else kv_get k st)"
  by (simp add: kv_get_def kv_del_def delete_conv')

lemma distinct_kv_set [simp]: "distinct (map fst st) \<Longrightarrow> distinct (map fst (kv_set k v st))"
  by (simp add: kv_set_def distinct_update)

lemma distinct_kv_del [simp]: "distinct (map fst st) \<Longrightarrow> distinct (map fst (kv_del k st))"
  by (simp add: kv_del_def distinct_delete)

lemma kv_write_simps [simp]:
  "kv (kv_write k v s) = kv_set k v (kv s)"
  "runners (kv_write k v s) = runners s"
  "bucket (kv_write k v s) = bucket s"
  "puts (kv_write k v s) = puts s"
  "writes (kv_write k v s) = writes s @ [(k, v)]"
  by (simp_all add: kv_write_def)

lemma schedule_simps [simp]:
  "kv (schedule d u s) = kv s"
  "runners (schedule d u s) = (runners s)(d \<mapsto> (u, Loop_get stages))"
  "puts (schedule d u s) = puts s"
  "writes (schedule d u s) = writes s"
  by (simp_all add: schedule_def)

lemma kv_get_empty [simp]: "kv_get k [] = None"
  by (simp add: kv_get_def)

lemma of_char_digit: "d < 10 \<Longrightarrow> (of_char (digit_char d) :: nat) = 48 + d"
  by (simp add: digit_char_def)

lemma read_nat_show_nat: "read_nat (show_nat n) = n"
proof (induction n rule: show_nat.induct)
  case (1 n)
  show ?case
  proof (cases "n < 10")
    case True
    then show ?thesis
      by (subst show_nat.simps) (simp add: read_nat_def of_char_digit)
  next
    case False
    with 1 have "read_nat (show_nat (n div 10)) = n div 10" by simp
    with False show ?thesis
      by (subst show_nat.simps) (simp add: read_nat_def of_char_digit)
  qed
qed

lemma test_platform_ok: "platform_ok test_platform"
  by (simp add: platform_ok_def test_platform_def read_nat_show_nat)

section \<open>Properties of the upload handler\<close>

lemma pick_fileName_file:
  "form_file fd = Some (FFile f) \<Longrightarrow> \<exists>v. pick_fileName fd = Inr (Some v)"
  by (auto split: option.splits form_value.splits)

text \<open>
  C5. An upload whose file has a MIME type outside the three allowed ones is answered with
  status 400 and the validation error, and the state is the one before the request: no
  Document record is written and no analysis is started.
\<close>

theorem upload_rejects_bad_type:
  assumes "form_file fd = Some (FFile f)" and "file_type f \<notin> set allowedTypes"
  shows "status (fst (upload_handler P userId fd e s)) = 400
       \<and> body (fst (upload_handler P userId fd e s)) = JObj [(''error'', JStr invalid_type_msg)]
       \<and> snd (upload_handler P userId fd e s) = s"
proof -
  from assms(1) obtain v where "pick_fileName fd = Inr (Some v)"
    using pick_fileName_file by blast
  with assms show ?thesis
    by (simp add: upload_handler_def upload_try_def error_response_def)
qed

theorem upload_rejects_bad_type_witness:
  "status (fst (upload_handler test_platform ''u1'' (form_of txt_file) (env_at 1000 ''d1'') init_sys)) = 400
   \<and> snd (upload_handler test_platform ''u1'' (form_of txt_file) (env_at 1000 ''d1'') init_sys) = init_sys"
  using upload_rejects_bad_type [of "form_of txt_file" txt_file test_platform "''u1''"
          "env_at 1000 ''d1''" init_sys]
  by (simp add: form_of_def txt_file_def allowedTypes_def)

text \<open>
  C10. An upload that passes the file and MIME-type checks and whose storage upload fails
  is answered with status 500, and the state is the one before the request.
\<close>

theorem upload_storage_failure:
  assumes "form_file fd = Some (FFile f)" and "file_type f \<in> set allowedTypes"
      and "env_upload_fails e"
  shows "status (fst (upload_handler P userId fd e s)) = 500
       \<and> snd (upload_handler P userId fd e s) = s"
proof -
  from assms(1) obtain v where "pick_fileName fd = Inr (Some v)"
    using pick_fileName_file by blast
  with assms show ?thesis
    by (cases v) (simp_all add: upload_handler_def upload_try_def error_response_def Let_def)
qed

theorem upload_storage_failure_witness:
  "status (fst (upload_handler test_platform ''u1'' (form_of pdf_file)
                  ((env_at 1000 ''d1'')\<lparr>env_upload_fails := True\<rparr>) init_sys)) = 500
   \<and> snd (upload_handler test_platform ''u1'' (form_of pdf_file)
                  ((env_at 1000 ''d1'')\<lparr>env_upload_fails := True\<rparr>) init_sys) = init_sys"
  using upload_storage_failure [of "form_of pdf_file" pdf_file
          "(env_at 1000 ''d1'')\<lparr>env_upload_fails := True\<rparr>" test_platform "''u1''" init_sys]
  by (simp add: form_of_def pdf_file_def allowedTypes_def env_at_def)

text \<open>
  C9 as stated fails: with a file of an allowed type and a storage service that reports no
  error, a form whose \<open>fileName\<close> entry is itself a file part is answered with 500 and no
  Document is created; \<open>fileName.replace\<close> throws before the storage call is made.
\<close>

theorem upload_file_as_name_counterexample:
  "form_file file_named_by_file = Some (FFile pdf_file)
   \<and> file_type pdf_file \<in> set allowedTypes
   \<and> \<not> env_upload_fails (env_at 1000 ''d1'')
   \<and> upload_handler test_platform ''u1'' file_named_by_file (env_at 1000 ''d1'') init_sys
       = (error_response ''Failed to process document upload'' 500, init_sys)"
  by (simp add: file_named_by_file_def pdf_file_def allowedTypes_def env_at_def
        upload_handler_def upload_try_def)

text \<open>
  C9, amended. For an upload with a file of an allowed type, a \<open>fileName\<close> entry that is
  absent or a text field, and a storage service that reports no error: the response is 200
  and carries a Document with status \<open>pending\<close> and progress 0, the same Document is in the
  store under the new identifier, and its runner is scheduled and has not taken a step.
\<close>

theorem upload_creates_pending:
  assumes "form_file fd = Some (FFile f)" and "file_type f \<in> set allowedTypes"
      and "\<forall>g. form_fileName fd \<noteq> Some (FFile g)"
      and "\<not> env_upload_fails e"
  shows "status (fst (upload_handler P userId fd e s)) = 200
       \<and> (\<exists>doc. body (fst (upload_handler P userId fd e s)) = JObj [(''document'', doc)]
              \<and> fld doc ''analysis_status'' = Some (JStr ''pending'')
              \<and> fld doc ''analysis_progress'' = Some (JNum 0)
              \<and> kv_get (doc_key (env_uuid e)) (kv (snd (upload_handler P userId fd e s))) = Some doc)
       \<and> runners (snd (upload_handler P userId fd e s)) (env_uuid e) = Some (userId, Loop_get stages)"
proof -
  have "\<exists>n. pick_fileName fd = Inr (Some (FText n))"
  proof (cases "form_fileName fd")
    case None
    with assms(1) show ?thesis by simp
  next
    case (Some a)
    with assms(3) obtain m where "a = FText m" by (cases a) auto
    with Some assms(1) show ?thesis by simp
  qed
  then obtain n where "pick_fileName fd = Inr (Some (FText n))" by blast
  with assms(1,2,4) show ?thesis
    by (simp add: upload_handler_def upload_try_def json_response_def Let_def new_document_def)
qed

theorem upload_creates_pending_witness:
  "status (fst (upload_handler test_platform ''u1'' (form_of pdf_file) (env_at 1000 ''d1'') init_sys)) = 200
   \<and> runners (snd (upload_handler test_platform ''u1'' (form_of pdf_file) (env_at 1000 ''d1'') init_sys)) ''d1''
       = Some (''u1'', Loop_get stages)
   \<and> doc_status (snd (upload_handler test_platform ''u1'' (form_of pdf_file) (env_at 1000 ''d1'') init_sys)) ''d1''
       = Some (JStr ''pending'')"
  using upload_creates_pending [of "form_of pdf_file" pdf_file "env_at 1000 ''d1''"
          test_platform "''u1''" init_sys]
  by (auto simp add: form_of_def pdf_file_def allowedTypes_def env_at_def doc_status_def)

text \<open>
  C4, at a request whose form has neither a file nor a display name: the handler reads
  \<open>file.name\<close> before it checks that there is a file, the read throws, and the answer is
  500. With a display name in the form the same request is answered with 400.
\<close>

theorem upload_no_file_no_name:
  "upload_handler P userId \<lparr>form_file = None, form_fileName = None\<rparr> e s
     = (\<lparr>status = 500, body = JObj [(''error'', JStr ''Failed to process document upload'')]\<rparr>, s)"
  by (simp add: upload_handler_def upload_try_def error_response_def)

lemma upload_no_file_named:
  "form_file fd = None \<Longrightarrow> form_fileName fd = Some (FText n) \<Longrightarrow> n \<noteq> [] \<Longrightarrow>
   upload_handler P userId fd e s = (error_response ''No file provided'' 400, s)"
  by (simp add: upload_handler_def upload_try_def)

section \<open>The store invariant\<close>

lemma inv_store_init: "inv_store P init_sys"
  by (simp add: inv_store_def init_sys_def kv_get_def prof_inv_def doc_inv_def idle_inv_def)

lemma signup_effect:
  "snd (signup_handler P req created now s) = s
   \<or> (\<exists>uid ps. created = Some uid \<and> snd (signup_handler P req created now s) = kv_write (prof_key uid) (JObj ps) s)"
  by (auto simp add: signup_handler_def new_profile_def split: option.splits json.splits)

lemma put_profile_read_obj:
  "put_profile_read P u req now s = Inr v \<Longrightarrow> is_obj v"
  by (auto simp add: put_profile_read_def split: option.splits if_splits)

lemma upload_effect:
  "snd (upload_handler P u fd e s) = s
   \<or> (\<exists>n path f. snd (upload_handler P u fd e s) =
         schedule (env_uuid e) u (kv_write (doc_key (env_uuid e)) (new_document P u n path f e)
            (s\<lparr>bucket := bucket s @ [(path, f)]\<rparr>)))"
  by (auto simp add: upload_handler_def upload_try_def Let_def split: option.splits form_value.splits sum.splits)

lemma doc_inv_cong:
  "kv_get (doc_key d) st' = kv_get (doc_key d) st \<Longrightarrow> kv_get (ana_key d) st' = kv_get (ana_key d) st
   \<Longrightarrow> rs' d = rs d \<Longrightarrow> doc_inv P st' rs' d = doc_inv P st rs d"
  by (simp add: doc_inv_def idle_inv_def runner_inv_def split: option.split)

lemma prof_inv_set:
  "prof_inv st \<Longrightarrow> (\<forall>u. k = prof_key u \<longrightarrow> is_obj v) \<Longrightarrow> prof_inv (kv_set k v st)"
  by (auto simp add: prof_inv_def)

lemma prof_inv_del: "prof_inv st \<Longrightarrow> prof_inv (kv_del (doc_key d) st)"
  by (simp add: prof_inv_def)

lemma doc_inv_set_prof [simp]:
  "doc_inv P (kv_set (prof_key u) v st) rs d = doc_inv P st rs d"
  by (rule doc_inv_cong) simp_all

lemma doc_inv_set_other [simp]:
  "d' \<noteq> d \<Longrightarrow> doc_inv P (kv_set (doc_key d) v st) rs d' = doc_inv P st rs d'"
  "d' \<noteq> d \<Longrightarrow> doc_inv P (kv_set (ana_key d) v st) rs d' = doc_inv P st rs d'"
  "d' \<noteq> d \<Longrightarrow> doc_inv P st (rs(d \<mapsto> r)) d' = doc_inv P st rs d'"
  by (rule doc_inv_cong; simp)+

lemma inv_store_prof_write:
  "inv_store P s \<Longrightarrow> is_obj v \<Longrightarrow> inv_store P (kv_write (prof_key u) v s)"
  by (simp add: inv_store_def prof_inv_set)

lemma inv_store_puts:
  "inv_store P s \<Longrightarrow> \<forall>x \<in> set q. is_obj (snd x) \<Longrightarrow> inv_store P (s\<lparr>puts := q\<rparr>)"
  by (simp add: inv_store_def)

lemma inv_store_put_write:
  assumes "inv_store P s" and "i < length (puts s)"
  shows "inv_store P ((snd (put_profile_write (fst (puts s ! i)) (snd (puts s ! i)) s))
                        \<lparr>puts := take i (puts s) @ drop (Suc i) (puts s)\<rparr>)"
proof -
  from assms have o: "\<forall>x \<in> set (puts s). is_obj (snd x)" by (simp add: inv_store_def)
  with assms(2) have "is_obj (snd (puts s ! i))" by simp
  with assms(1) have "inv_store P (kv_write (prof_key (fst (puts s ! i))) (snd (puts s ! i)) s)"
    by (rule inv_store_prof_write)
  moreover from o have "\<forall>x \<in> set (take i (puts s) @ drop (Suc i) (puts s)). is_obj (snd x)"
    by (auto dest: in_set_takeD in_set_dropD)
  ultimately show ?thesis by (simp add: put_profile_write_def inv_store_puts)
qed

lemma doc_wf_new: "doc_wf P u (new_document P u n path f e)"
  by (auto simp add: doc_wf_def new_document_def)

lemma stage_names:
  assumes "stages = done @ [st]"
  shows "stage_name st = ''complete'' \<and> progress st = 100"
proof -
  from assms have "last stages = last (done @ [st])" by (rule arg_cong)
  then have "st = last stages" by simp
  then show ?thesis by (simp add: stages_def)
qed

lemma pc_wf_start [simp]: "pc_wf (Loop_get stages)"
  unfolding pc_wf_def by (rule exI [of _ "[]"]) simp

lemma pc_wf_simps [simp]:
  "pc_wf Profile_get" "pc_wf (Profile_set v)" "pc_wf Finished" "pc_wf (Loop_get [])"
  unfolding pc_wf_def by (rule exI [of _ stages], simp)+

lemma pc_wf_Crashed [simp]: "\<not> pc_wf Crashed"
  by (simp add: pc_wf_def)

lemma pc_wf_skip:
  assumes "pc_wf (Loop_get (st # rest))"
  shows "pc_wf (Loop_get rest)"
proof -
  from assms obtain dn where "stages = dn @ st # rest"
    by (auto simp add: pc_wf_def)
  then have "stages = (dn @ [st]) @ rest" by simp
  then have "pc_done (Loop_get rest) (dn @ [st])" by simp
  then show ?thesis unfolding pc_wf_def by (rule exI)
qed

lemma pc_wf_get_set:
  assumes "pc_wf (Loop_get (st # rest))" and "staged st v"
  shows "pc_wf (Loop_set rest v)"
proof -
  from assms(1) obtain dn where "stages = dn @ st # rest"
    by (auto simp add: pc_wf_def)
  with assms(2) have "pc_done (Loop_set rest v) dn" by auto
  then show ?thesis unfolding pc_wf_def by (rule exI)
qed

lemma pc_wf_set_get:
  assumes "pc_wf (Loop_set rest v)"
  shows "pc_wf (Loop_get rest)"
proof -
  from assms obtain dn st where "stages = dn @ st # rest"
    by (auto simp add: pc_wf_def)
  then have "pc_done (Loop_get rest) (dn @ [st])" by simp
  then show ?thesis unfolding pc_wf_def by (rule exI)
qed

lemma pc_wf_last:
  assumes "pc_wf (Loop_set [] v)"
  shows "is_complete v"
proof -
  from assms obtain dn st where "stages = dn @ [st]" and "staged st v"
    by (auto simp add: pc_wf_def)
  with stage_names [of dn st] show ?thesis
    by (simp add: staged_def is_complete_def)
qed

lemma stages_nonempty [simp]: "stages \<noteq> []"
  by (simp add: stages_def)

lemma set_stage_obj:
  "is_obj v \<Longrightarrow> \<exists>v'. set_stage st v = Inr v' \<and> is_obj v' \<and> staged st v'
       \<and> (\<forall>k. k \<noteq> ''analysis_status'' \<longrightarrow> k \<noteq> ''analysis_progress'' \<longrightarrow> fld v' k = fld v k)"
  by (cases v) (auto simp add: set_stage_def staged_def update_conv')

lemma set_stage_wf:
  assumes "doc_wf P u v"
  shows "\<exists>v'. set_stage st v = Inr v' \<and> doc_wf P u v' \<and> staged st v'"
proof -
  from assms have "is_obj v" by (simp add: doc_wf_def)
  from set_stage_obj [OF this, of st] obtain v' where
    v': "set_stage st v = Inr v'" "is_obj v'" "staged st v'"
    and frame: "\<And>k. k \<noteq> ''analysis_status'' \<Longrightarrow> k \<noteq> ''analysis_progress'' \<Longrightarrow> fld v' k = fld v k"
    by blast
  have "fld v' ''user_id'' = fld v ''user_id''" by (rule frame) simp_all
  moreover have "fld v' ''uploaded_at'' = fld v ''uploaded_at''" by (rule frame) simp_all
  ultimately have "doc_wf P u v'" using assms v'(2) by (simp add: doc_wf_def)
  with v' show ?thesis by blast
qed

lemma is_obj_truthy: "is_obj v \<Longrightarrow> truthy v"
  by (cases v) auto

lemma assign_obj: "is_obj v \<Longrightarrow> \<exists>ps. assign k w v = Inr (JObj ps)"
  by (cases v) auto

lemma inv_store_upload:
  assumes "inv_store P s" "runners s d = None" "doc_wf P u v"
  shows "inv_store P (schedule d u (kv_write (doc_key d) v (s\<lparr>bucket := b\<rparr>)))"
proof -
  have "doc_inv P (kv_set (doc_key d) v (kv s)) ((runners s)(d \<mapsto> (u, Loop_get stages))) d' " for d'
  proof (cases "d' = d")
    case True
    from assms(1) have "doc_inv P (kv s) (runners s) d"
      by (simp add: inv_store_def)
    with assms(2) have "idle_inv (kv s) d"
      by (simp add: doc_inv_def)
    with assms(3) True show ?thesis
      by (simp add: doc_inv_def runner_inv_def idle_inv_def)
  next
    case False
    with assms(1) show ?thesis
      by (simp add: inv_store_def)
  qed
  with assms(1) show ?thesis
    by (simp add: inv_store_def prof_inv_set)
qed

lemma doc_inv_del:
  "doc_inv P st rs d' \<Longrightarrow> doc_inv P (kv_del (doc_key d) st) rs d'"
  by (cases "rs d'") (auto simp add: doc_inv_def idle_inv_def runner_inv_def)

lemma inv_store_delete:
  assumes "inv_store P s"
  shows "inv_store P (s\<lparr>kv := kv_del (doc_key d) (kv s)\<rparr>)"
  using assms by (simp add: inv_store_def prof_inv_del doc_inv_del)

lemma tick_None: "runners s d = None \<Longrightarrow> tick P now d s = s"
  by (simp add: tick_def)

lemma tick_Some:
  "runners s d = Some (u, p) \<Longrightarrow> runner_step P now d u p s = (p', s') \<Longrightarrow>
   tick P now d s = s'\<lparr>runners := (runners s')(d \<mapsto> (u, p'))\<rparr>"
  by (simp add: tick_def)

lemma runner_step_inv:
  assumes ri: "runner_inv P (kv s) d u p" and pi: "prof_inv (kv s)"
      and st: "runner_step P now d u p s = (p', s')"
  shows "runner_inv P (kv s') d u p' \<and> step_effect d u s s'"
proof (cases p)
  case (Loop_get sts)
  show ?thesis
  proof (cases sts)
    case Nil
    with Loop_get ri st show ?thesis
      by (auto simp add: runner_inv_def step_effect_def)
  next
    case (Cons sg rest)
    show ?thesis
    proof (cases "kv_get (doc_key d) (kv s)")
      case None
      with Cons Loop_get ri st pc_wf_skip [of sg rest] show ?thesis
        by (auto simp add: runner_inv_def step_effect_def)
    next
      case (Some v)
      with ri have wf: "doc_wf P u v" by (simp add: runner_inv_def)
      then obtain v' where
        v': "set_stage sg v = Inr v'" "doc_wf P u v'" "staged sg v'"
        using set_stage_wf by blast
      from wf have "truthy v" by (simp add: doc_wf_def is_obj_truthy)
      with Some v' Cons Loop_get ri st pc_wf_get_set [of sg rest v'] show ?thesis
        by (auto simp add: runner_inv_def step_effect_def)
    qed
  qed
next
  case (Loop_set rest v)
  with ri st pc_wf_set_get [of rest v] pc_wf_last [of v] show ?thesis
    by (auto simp add: runner_inv_def step_effect_def)
next
  case Profile_get
  show ?thesis
  proof (cases "kv_get (prof_key u) (kv s)")
    case None
    with Profile_get ri st show ?thesis
      by (auto simp add: runner_inv_def step_effect_def)
  next
    case (Some pr)
    with pi have o: "is_obj pr" unfolding prof_inv_def by blast
    then obtain ps where "assign ''documents_analyzed''
        (counter_next P (fld pr ''documents_analyzed'')) pr = Inr (JObj ps)"
      using assign_obj by blast
    with o Some Profile_get ri st show ?thesis
      by (auto simp add: runner_inv_def step_effect_def is_obj_truthy)
  qed
next
  case (Profile_set v)
  with ri st show ?thesis
    by (auto simp add: runner_inv_def step_effect_def)
next
  case Finished
  with ri st show ?thesis
    by (auto simp add: runner_inv_def step_effect_def)
next
  case Crashed
  with ri show ?thesis by (simp add: runner_inv_def)
qed

lemma inv_store_tick:
  assumes inv: "inv_store P s"
  shows "inv_store P (tick P now d s)"
proof (cases "runners s d")
  case None
  then show ?thesis using inv by (simp add: tick_None)
next
  case (Some r)
  obtain u p where r: "r = (u, p)" by (cases r)
  with Some have run: "runners s d = Some (u, p)" by simp
  obtain p' s' where st: "runner_step P now d u p s = (p', s')" by force
  from inv have "doc_inv P (kv s) (runners s) d"
    by (simp add: inv_store_def)
  with run have ri: "runner_inv P (kv s) d u p"
    by (simp add: doc_inv_def)
  from inv have pi: "prof_inv (kv s)" and di: "distinct (map fst (kv s))"
    and all: "\<And>d'. doc_inv P (kv s) (runners s) d'"
    by (simp_all add: inv_store_def)
  from runner_step_inv [OF ri pi st]
  have ri': "runner_inv P (kv s') d u p'" and eff: "step_effect d u s s'" by simp_all
  have t: "tick P now d s = s'\<lparr>runners := (runners s')(d \<mapsto> (u, p'))\<rparr>"
    using run st by (rule tick_Some)
  from inv have po: "\<forall>x \<in> set (puts s). is_obj (snd x)" by (simp add: inv_store_def)
  from eff have rs: "runners s' = runners s" and di': "distinct (map fst (kv s'))"
    and pi': "prof_inv (kv s')" and ps': "puts s' = puts s"
    and frame: "\<And>d'. d' \<noteq> d \<Longrightarrow> kv_get (doc_key d') (kv s') = kv_get (doc_key d') (kv s)
                        \<and> kv_get (ana_key d') (kv s') = kv_get (ana_key d') (kv s)"
    using di pi by (auto simp add: step_effect_def prof_inv_set)
  have "doc_inv P (kv s') ((runners s')(d \<mapsto> (u, p'))) d'" for d'
  proof (cases "d' = d")
    case True
    with ri' show ?thesis by (simp add: doc_inv_def)
  next
    case False
    with frame [OF False] rs have "doc_inv P (kv s') ((runners s')(d \<mapsto> (u, p'))) d'
        = doc_inv P (kv s) (runners s) d'"
      by (intro doc_inv_cong) simp_all
    with all show ?thesis by simp
  qed
  with di' pi' ps' po t show ?thesis by (simp add: inv_store_def)
qed

lemma inv_store_exec:
  assumes "inv_store P s" "enabled del a s"
  shows "inv_store P (exec P a s)"
proof (cases a)
  case (Signup req created now)
  with assms signup_effect [of P req created now s] show ?thesis
    by (auto simp add: inv_store_prof_write)
next
  case (PutRead u req now)
  show ?thesis
  proof (cases "put_profile_read P u req now s")
    case (Inl r)
    with PutRead assms show ?thesis by simp
  next
    case (Inr v)
    then have "is_obj v" by (rule put_profile_read_obj)
    with assms(1) have "\<forall>x \<in> set (puts s @ [(u, v)]). is_obj (snd x)"
      by (simp add: inv_store_def)
    with PutRead Inr assms(1) show ?thesis by (simp add: inv_store_puts)
  qed
next
  case (PutWrite i)
  with assms show ?thesis by (simp add: inv_store_put_write)
next
  case (Upload u fd e)
  with assms upload_effect [of P u fd e s] show ?thesis
    by (auto simp add: inv_store_upload doc_wf_new)
next
  case (Tick d now)
  with assms show ?thesis by (simp add: inv_store_tick)
next
  case (Delete d)
  with assms show ?thesis by (simp add: inv_store_delete)
qed

lemma reachable_inv_store: "reachable P del s \<Longrightarrow> inv_store P s"
  by (induction rule: reachable.induct) (simp_all add: inv_store_init inv_store_exec)

section \<open>Analysis records\<close>

lemma reachable_execs:
  "reachable P del s \<Longrightarrow> all_enabled P del as s \<Longrightarrow> reachable P del (execs P as s)"
  by (induction as arbitrary: s) (auto intro: reachable_step)

lemmas run_simps = upload_handler_def upload_try_def form_of_def pdf_file_def allowedTypes_def
  env_at_def init_sys_def Let_def new_document_def tick_def set_stage_def stages_def
  json_response_def ticks_def upt_rec upload_d1_def

lemma reachable_stages_done: "reachable test_platform del sys_stages_done"
  unfolding sys_stages_done_def
  by (rule reachable_execs [OF reachable_init]) (simp add: run_simps)

lemma reachable_analysed: "reachable test_platform del sys_analysed"
  unfolding sys_analysed_def
  by (rule reachable_execs [OF reachable_init]) (simp add: run_simps)

text \<open>
  C2 as stated fails: after the eighth step of its runner a Document has status
  \<open>complete\<close>, and the write of its Analysis record is still to come.
\<close>

theorem analysis_iff_complete_counterexample:
  "\<not> (\<forall>s d. reachable test_platform True s \<longrightarrow> (has_analysis s d \<longleftrightarrow> status_complete s d))"
proof
  assume "\<forall>s d. reachable test_platform True s \<longrightarrow> (has_analysis s d \<longleftrightarrow> status_complete s d)"
  with reachable_stages_done [of True]
  have "has_analysis sys_stages_done ''d1'' \<longleftrightarrow> status_complete sys_stages_done ''d1''"
    by blast
  moreover have "status_complete sys_stages_done ''d1''"
    by (simp add: sys_stages_done_def status_complete_def doc_status_def run_simps)
  moreover have "\<not> has_analysis sys_stages_done ''d1''"
    by (simp add: sys_stages_done_def has_analysis_def run_simps)
  ultimately show False by blast
qed

lemma runner_inv_of:
  assumes "reachable P del s" and "runners s d = Some (u, p)"
  shows "runner_inv P (kv s) d u p"
proof -
  from assms(1) have "doc_inv P (kv s) (runners s) d"
    using reachable_inv_store by (simp add: inv_store_def)
  with assms(2) show ?thesis by (simp add: doc_inv_def)
qed

lemma idle_inv_of:
  assumes "reachable P del s" and "runners s d = None"
  shows "idle_inv (kv s) d"
proof -
  from assms(1) have "doc_inv P (kv s) (runners s) d"
    using reachable_inv_store by (simp add: inv_store_def)
  with assms(2) show ?thesis by (simp add: doc_inv_def)
qed

lemma not_last_stage:
  assumes "stages = dn @ st # rest" and "rest \<noteq> []"
  shows "stage_name st \<noteq> ''complete''"
proof -
  from assms(1) have "butlast stages = butlast (dn @ st # rest)" by (rule arg_cong)
  with assms(2) have "butlast stages = dn @ st # butlast rest" by (simp add: butlast_append)
  then have "st \<in> set (butlast stages)" by simp
  then show ?thesis by (auto simp add: stages_def)
qed

lemma not_complete_cong:
  "runners s' d = runners s d \<Longrightarrow> kv_get (doc_key d) (kv s') = kv_get (doc_key d) (kv s)
   \<Longrightarrow> not_complete_inv s' d = not_complete_inv s d"
  by (simp add: not_complete_inv_def)

lemma runner_step_not_complete:
  assumes ri: "runner_inv P (kv s) d u p" and pi: "prof_inv (kv s)"
      and st: "runner_step P now d u p s = (p', s')"
      and nc: "\<not> past_loop p \<Longrightarrow> kv_get (doc_key d) (kv s) = Some v
                 \<Longrightarrow> fld v ''analysis_status'' \<noteq> Some (JStr ''complete'')"
      and np: "\<not> past_loop p'" and v: "kv_get (doc_key d) (kv s') = Some v"
  shows "fld v ''analysis_status'' \<noteq> Some (JStr ''complete'')"
proof (cases p)
  case (Loop_get sts)
  show ?thesis
  proof (cases sts)
    case Nil
    with Loop_get st np show ?thesis by auto
  next
    case (Cons sg rest)
    with Loop_get st have "s' = s"
      by (auto split: option.splits if_splits sum.splits)
    with Loop_get Cons nc v show ?thesis by simp
  qed
next
  case (Loop_set rest w)
  with st have e: "p' = Loop_get rest" "s' = kv_write (doc_key d) w s" by auto
  with np v have "rest \<noteq> []" "v = w" by simp_all
  moreover from ri Loop_set obtain dn sg where "stages = dn @ sg # rest" "staged sg w"
    by (auto simp add: runner_inv_def pc_wf_def)
  ultimately show ?thesis using not_last_stage [of dn sg rest] by (simp add: staged_def)
next
  case Profile_get
  from runner_step_inv [OF ri pi st] have "p' \<noteq> Crashed" by (auto simp add: runner_inv_def)
  with Profile_get st np show ?thesis
    by (auto split: option.splits if_splits sum.splits)
next
  case (Profile_set w)
  with st np show ?thesis by auto
next
  case Finished
  with st np show ?thesis by auto
next
  case Crashed
  with ri show ?thesis by (simp add: runner_inv_def)
qed

lemma not_complete_tick:
  assumes inv: "inv_store P s" and nc: "\<And>d. not_complete_inv s d"
  shows "not_complete_inv (tick P now d s) d'"
proof (cases "runners s d")
  case None
  then show ?thesis using nc by (simp add: tick_None)
next
  case (Some r)
  obtain u p where "r = (u, p)" by (cases r)
  with Some have run: "runners s d = Some (u, p)" by simp
  obtain p' s' where st: "runner_step P now d u p s = (p', s')" by force
  from inv have "doc_inv P (kv s) (runners s) d" and pi: "prof_inv (kv s)"
    by (simp_all add: inv_store_def)
  with run have ri: "runner_inv P (kv s) d u p" by (simp add: doc_inv_def)
  have t: "tick P now d s = s'\<lparr>runners := (runners s')(d \<mapsto> (u, p'))\<rparr>"
    using run st by (rule tick_Some)
  from runner_step_inv [OF ri pi st] have eff: "step_effect d u s s'" by simp
  show ?thesis
  proof (cases "d' = d")
    case True
    have "fld v ''analysis_status'' \<noteq> Some (JStr ''complete'')"
      if "\<not> past_loop p'" "kv_get (doc_key d) (kv s') = Some v" for v
    proof (rule runner_step_not_complete [OF ri pi st _ that])
      assume "\<not> past_loop p" "kv_get (doc_key d) (kv s) = Some v"
      with nc [of d] run show "fld v ''analysis_status'' \<noteq> Some (JStr ''complete'')"
        by (simp add: not_complete_inv_def)
    qed
    with True t show ?thesis by (simp add: not_complete_inv_def)
  next
    case False
    from eff False have "runners s' d' = runners s d'"
        "kv_get (doc_key d') (kv s') = kv_get (doc_key d') (kv s)"
      by (auto simp add: step_effect_def)
    with False t have "not_complete_inv (tick P now d s) d' = not_complete_inv s d'"
      by (intro not_complete_cong) simp_all
    with nc show ?thesis by simp
  qed
qed

lemma not_complete_exec:
  assumes "inv_store P s" and nc: "\<And>d. not_complete_inv s d" and en: "enabled del a s"
  shows "not_complete_inv (exec P a s) d'"
proof (cases a)
  case (Signup req created now)
  have "not_complete_inv (exec P a s) d' = not_complete_inv s d'"
    using Signup signup_effect [of P req created now s]
    by (intro not_complete_cong) auto
  with nc show ?thesis by simp
next
  case (PutRead u req now)
  have "not_complete_inv (exec P a s) d' = not_complete_inv s d'"
    using PutRead by (intro not_complete_cong) (simp_all split: sum.splits)
  with nc show ?thesis by simp
next
  case (PutWrite i)
  have "not_complete_inv (exec P a s) d' = not_complete_inv s d'"
    using PutWrite by (intro not_complete_cong) (simp_all add: put_profile_write_def)
  with nc show ?thesis by simp
next
  case (Upload u fd e)
  from upload_effect [of P u fd e s] show ?thesis
  proof
    assume "snd (upload_handler P u fd e s) = s"
    with Upload nc show ?thesis by simp
  next
    assume "\<exists>n path f. snd (upload_handler P u fd e s) =
         schedule (env_uuid e) u (kv_write (doc_key (env_uuid e)) (new_document P u n path f e)
            (s\<lparr>bucket := bucket s @ [(path, f)]\<rparr>))"
    then obtain n path f where e: "exec P a s =
         schedule (env_uuid e) u (kv_write (doc_key (env_uuid e)) (new_document P u n path f e)
            (s\<lparr>bucket := bucket s @ [(path, f)]\<rparr>))"
      using Upload by auto
    show ?thesis
    proof (cases "d' = env_uuid e")
      case True
      with e show ?thesis by (simp add: not_complete_inv_def new_document_def)
    next
      case False
      with e have "not_complete_inv (exec P a s) d' = not_complete_inv s d'"
        by (intro not_complete_cong) simp_all
      with nc show ?thesis by simp
    qed
  qed
next
  case (Tick d now)
  with assms(1) nc show ?thesis by (simp add: not_complete_tick)
next
  case (Delete d)
  with nc [of d'] show ?thesis
    by (cases "d' = d") (simp_all add: not_complete_inv_def)
qed

lemma reachable_not_complete: "reachable P del s \<Longrightarrow> not_complete_inv s d"
proof (induction arbitrary: d rule: reachable.induct)
  case reachable_init
  show ?case by (simp add: not_complete_inv_def init_sys_def)
next
  case (reachable_step s a)
  from reachable_step(1) have "inv_store P s" by (rule reachable_inv_store)
  then show ?case using reachable_step(3,2) by (rule not_complete_exec)
qed

text \<open>
  C2, amended. In every reachable state, with or without deletions of Document records:
  if an Analysis record exists for a document, its runner has made the Analysis write, and
  the Document record is absent or has status \<open>complete\<close>; once the runner has made the
  Analysis write, the Analysis record exists; and if the Document record has status
  \<open>complete\<close>, the Analysis record exists unless the runner stands between its last status
  write and its Analysis write (the control point after the loop).
\<close>

theorem analysis_implies_complete:
  assumes "reachable P del s"
  shows "(has_analysis s d \<longrightarrow>
            (\<exists>u p. runners s d = Some (u, p) \<and> analysed p)
          \<and> (kv_get (doc_key d) (kv s) = None \<or> status_complete s d))
       \<and> (\<forall>u p. runners s d = Some (u, p) \<and> analysed p \<longrightarrow> has_analysis s d)
       \<and> (status_complete s d \<longrightarrow>
            has_analysis s d \<or> (\<exists>u. runners s d = Some (u, Loop_get [])))"
proof (cases "runners s d")
  case None
  with assms have "idle_inv (kv s) d" by (rule idle_inv_of)
  with None show ?thesis
    by (simp add: idle_inv_def has_analysis_def status_complete_def doc_status_def)
next
  case (Some r)
  obtain u p where r: "r = (u, p)" by (cases r)
  with Some have run: "runners s d = Some (u, p)" by simp
  with assms have ri: "runner_inv P (kv s) d u p" by (rule runner_inv_of)
  have gap: "status_complete s d \<longrightarrow> has_analysis s d \<or> (\<exists>u. runners s d = Some (u, Loop_get []))"
  proof
    assume c: "status_complete s d"
    then obtain v where v: "kv_get (doc_key d) (kv s) = Some v"
        "fld v ''analysis_status'' = Some (JStr ''complete'')"
      by (auto simp add: status_complete_def doc_status_def split: option.splits)
    with reachable_not_complete [OF assms, of d] run have pl: "past_loop p"
      by (auto simp add: not_complete_inv_def)
    show "has_analysis s d \<or> (\<exists>u. runners s d = Some (u, Loop_get []))"
    proof (cases "analysed p")
      case True
      with ri show ?thesis by (auto simp add: runner_inv_def has_analysis_def)
    next
      case False
      with pl have "p = Loop_get []" by (cases p) simp_all
      with run show ?thesis by simp
    qed
  qed
  show ?thesis
  proof (cases "analysed p")
    case True
    then have "past_loop p" by (cases p) simp_all
    with ri True run gap show ?thesis
      by (cases "kv_get (doc_key d) (kv s)")
         (auto simp add: runner_inv_def has_analysis_def status_complete_def doc_status_def
            is_complete_def)
  next
    case False
    with ri run gap show ?thesis
      by (simp add: runner_inv_def has_analysis_def)
  qed
qed

theorem analysis_implies_complete_witness:
  "reachable test_platform True sys_analysed \<and> has_analysis sys_analysed ''d1''
   \<and> kv_get (doc_key ''d1'') (kv sys_analysed) \<noteq> None \<and> status_complete sys_analysed ''d1''"
proof -
  have r: "reachable test_platform True sys_analysed" by (rule reachable_analysed)
  have h: "has_analysis sys_analysed ''d1''"
    by (simp add: sys_analysed_def has_analysis_def run_simps)
  have k: "kv_get (doc_key ''d1'') (kv sys_analysed) \<noteq> None"
    by (simp add: sys_analysed_def run_simps)
  from analysis_implies_complete [OF r, of "''d1''"] h k
  have "status_complete sys_analysed ''d1''" by blast
  with r h k show ?thesis by blast
qed




section \<open>Listing the documents of a user\<close>

lemma mset_insert_by: "mset (insert_by cmp x ys) = add_mset x (mset ys)"
  by (induction ys) simp_all

lemma mset_js_sort: "mset (js_sort cmp xs) = mset xs"
  by (induction xs) (simp_all add: js_sort_def mset_insert_by)

lemma set_js_sort: "set (js_sort cmp xs) = set xs"
  using mset_js_sort [of cmp xs] by (metis set_mset_mset)

lemma set_insert_by: "set (insert_by cmp x ys) = insert x (set ys)"
  using mset_insert_by [of cmp x ys] by (metis set_mset_mset set_mset_add_mset_insert)

text \<open>Sorting by a comparator that is the difference of a key, largest key first.\<close>

lemma sorted_insert_by:
  assumes "\<forall>y \<in> set ys. cmp x y = key y - key x"
      and "sorted_wrt (\<lambda>a b. key b \<le> key a) ys"
  shows "sorted_wrt (\<lambda>a b. key b \<le> (key a :: int)) (insert_by cmp x ys)"
  using assms
proof (induction ys)
  case Nil
  then show ?case by simp
next
  case (Cons y ys)
  show ?case
  proof (cases "cmp x y \<le> 0")
    case True
    with Cons.prems have "key y \<le> key x" by simp
    with Cons.prems True show ?thesis by auto
  next
    case False
    with Cons.prems have "key x \<le> key y" by simp
    with Cons False show ?thesis by (auto simp add: set_insert_by)
  qed
qed

lemma sorted_js_sort:
  assumes "\<forall>x \<in> set xs. \<forall>y \<in> set xs. cmp x y = key y - key x"
  shows "sorted_wrt (\<lambda>a b. key b \<le> (key a :: int)) (js_sort cmp xs)"
  using assms
proof (induction xs)
  case Nil
  then show ?case by (simp add: js_sort_def)
next
  case (Cons x xs)
  then have "sorted_wrt (\<lambda>a b. key b \<le> key a) (js_sort cmp xs)" by simp
  moreover from Cons.prems have "\<forall>y \<in> set (js_sort cmp xs). cmp x y = key y - key x"
    by (simp add: set_js_sort)
  ultimately have "sorted_wrt (\<lambda>a b. key b \<le> key a) (insert_by cmp x (js_sort cmp xs))"
    by (rule sorted_insert_by [rotated])
  then show ?case by (simp add: js_sort_def)
qed

lemma prefix_doc_key: "prefix ''document:'' k \<longleftrightarrow> (\<exists>d. k = doc_key d)"
  by (auto simp add: prefix_def doc_key_def)

lemma prefix_doc_key_self [simp]: "prefix ''document:'' (doc_key d)"
  by (simp add: prefix_doc_key)

lemma set_getByPrefix:
  assumes "distinct (map fst st)"
  shows "set (getByPrefix p st) = {v. \<exists>k. prefix p k \<and> kv_get k st = Some v}"
  using assms by (auto simp add: getByPrefix_def kv_get_def image_iff)

lemma doc_records:
  assumes "reachable P del s"
  shows "set (getByPrefix ''document:'' (kv s)) = {v. \<exists>d. kv_get (doc_key d) (kv s) = Some v}"
proof -
  from assms have "distinct (map fst (kv s))"
    using reachable_inv_store by (simp add: inv_store_def)
  then show ?thesis by (auto simp add: set_getByPrefix prefix_doc_key)
qed

lemma doc_record_wf:
  assumes "reachable P del s" and "kv_get (doc_key d) (kv s) = Some v"
  shows "\<exists>u. doc_wf P u v"
proof (cases "runners s d")
  case None
  with assms(1) have "idle_inv (kv s) d" by (rule idle_inv_of)
  with assms(2) show ?thesis by (simp add: idle_inv_def)
next
  case (Some r)
  obtain u p where "r = (u, p)" by (cases r)
  with Some assms(1) have "runner_inv P (kv s) d u p" by (simp add: runner_inv_of)
  with assms(2) show ?thesis by (auto simp add: runner_inv_def)
qed

lemma doc_wf_upload_ms:
  assumes "platform_ok P" and "doc_wf P u v"
  shows "\<exists>t. upload_ms P v = Some t"
  using assms by (auto simp add: platform_ok_def doc_wf_def upload_ms_def)

text \<open>
  C8. In a reachable state \<open>GET /documents\<close> answers with exactly the Document records
  whose owner is the caller, each as often as it is stored, newest upload first; and
  \<open>GET /documents/:id/analysis\<close> answers 404 for an identifier with no Document record or
  with a record owned by someone else.
\<close>

theorem documents_of_owner:
  assumes "reachable P del s" and "platform_ok P"
  shows "(\<exists>docs. documents_handler P userId s = json_response (JObj [(''documents'', JArr docs)])
            \<and> set docs = {v. \<exists>d. kv_get (doc_key d) (kv s) = Some v \<and> owned_by userId v}
            \<and> mset docs = mset (filter (owned_by userId) (getByPrefix ''document:'' (kv s)))
            \<and> sorted_wrt (newest_first P) docs)
       \<and> ((\<forall>v. kv_get (doc_key d) (kv s) = Some v \<longrightarrow> \<not> owned_by userId v)
            \<longrightarrow> status (analysis_handler userId d s) = 404)"
proof
  let ?all = "getByPrefix ''document:'' (kv s)"
  let ?mine = "filter (owned_by userId) ?all"
  let ?docs = "js_sort (by_upload_desc P) ?mine"
  have recs: "set ?all = {v. \<exists>d. kv_get (doc_key d) (kv s) = Some v}"
    using assms(1) by (rule doc_records)
  have wf: "\<exists>t. upload_ms P v = Some t" if "v \<in> set ?all" for v
  proof -
    from that recs obtain d where "kv_get (doc_key d) (kv s) = Some v" by auto
    with assms(1) obtain u where "doc_wf P u v" using doc_record_wf by blast
    with assms(2) show ?thesis by (rule doc_wf_upload_ms)
  qed
  have nonull: "JNull \<notin> set ?all"
  proof
    assume "JNull \<in> set ?all"
    then obtain t where "upload_ms P JNull = Some t" using wf by blast
    from \<open>JNull \<in> set ?all\<close> recs obtain d where "kv_get (doc_key d) (kv s) = Some JNull" by auto
    with assms(1) obtain u where "doc_wf P u JNull" using doc_record_wf by blast
    then show False by (simp add: doc_wf_def)
  qed
  have resp: "documents_handler P userId s = json_response (JObj [(''documents'', JArr ?docs)])"
    using nonull by (simp add: documents_handler_def owned_by_def [abs_def])
  have s1: "set ?docs = {v. \<exists>d. kv_get (doc_key d) (kv s) = Some v \<and> owned_by userId v}"
    using recs by (auto simp add: set_js_sort)
  have s2: "mset ?docs = mset ?mine" by (rule mset_js_sort)
  define key where "key v = (case upload_ms P v of Some t \<Rightarrow> t | None \<Rightarrow> 0)" for v
  have cmp: "\<forall>x \<in> set ?mine. \<forall>y \<in> set ?mine. by_upload_desc P x y = key y - key x"
  proof (intro ballI)
    fix x y assume "x \<in> set ?mine" "y \<in> set ?mine"
    then obtain tx ty where "upload_ms P x = Some tx" "upload_ms P y = Some ty"
      using wf by (metis filter_is_subset subsetD)
    then show "by_upload_desc P x y = key y - key x"
      by (simp add: by_upload_desc_def key_def upload_ms_def)
  qed
  have "sorted_wrt (\<lambda>a b. key b \<le> key a) ?docs"
    using cmp by (rule sorted_js_sort)
  moreover have "newest_first P a b" if "a \<in> set ?docs" "b \<in> set ?docs" "key b \<le> key a" for a b
  proof -
    from that(1,2) have "a \<in> set ?all" "b \<in> set ?all" by (auto simp add: set_js_sort)
    then obtain ta tb where "upload_ms P a = Some ta" "upload_ms P b = Some tb"
      using wf by blast
    with that(3) show ?thesis by (simp add: newest_first_def key_def)
  qed
  ultimately have s3: "sorted_wrt (newest_first P) ?docs"
    by (rule sorted_wrt_mono_rel [rotated]) blast
  from resp s1 s2 s3
  show "\<exists>docs. documents_handler P userId s = json_response (JObj [(''documents'', JArr docs)])
            \<and> set docs = {v. \<exists>d. kv_get (doc_key d) (kv s) = Some v \<and> owned_by userId v}
            \<and> mset docs = mset (filter (owned_by userId) (getByPrefix ''document:'' (kv s)))
            \<and> sorted_wrt (newest_first P) docs"
    by blast
next
  show "(\<forall>v. kv_get (doc_key d) (kv s) = Some v \<longrightarrow> \<not> owned_by userId v)
            \<longrightarrow> status (analysis_handler userId d s) = 404"
    by (auto simp add: analysis_handler_def owned_by_def error_response_def split: option.splits)
qed

lemma reachable_three: "reachable test_platform del sys_three"
  unfolding sys_three_def three_uploads_def
  by (rule reachable_execs [OF reachable_init]) (simp add: run_simps)

theorem documents_of_owner_witness:
  "reachable test_platform False sys_three \<and> platform_ok test_platform
   \<and> (\<exists>docs. documents_handler test_platform ''u1'' sys_three
                = json_response (JObj [(''documents'', JArr docs)])
             \<and> sorted_wrt (newest_first test_platform) docs)
   \<and> status (analysis_handler ''u1'' ''d2'' sys_three) = 404"
proof -
  have r: "reachable test_platform False sys_three" by (rule reachable_three)
  have o: "\<forall>v. kv_get (doc_key ''d2'') (kv sys_three) = Some v \<longrightarrow> \<not> owned_by ''u1'' v"
    by (simp add: sys_three_def three_uploads_def owned_by_def run_simps)
  from documents_of_owner [OF r test_platform_ok, of "''u1''" "''d2''"] o r test_platform_ok
  show ?thesis by blast
qed

lemma documents_example:
  "\<exists>a b. body (documents_handler test_platform ''u1'' sys_three) = JObj [(''documents'', JArr [a, b])]
     \<and> fld a ''id'' = Some (JStr ''d3'') \<and> fld b ''id'' = Some (JStr ''d1'')"
  by (simp add: sys_three_def three_uploads_def run_simps documents_handler_def getByPrefix_def
        kv_set_def js_sort_def by_upload_desc_def test_platform_def read_nat_show_nat)

section \<open>The counter and the requests of clients\<close>

lemma map_of_merge_props:
  "k \<notin> fst ` set b \<Longrightarrow> map_of (merge_props a b) k = map_of a k"
  unfolding merge_props_def
  by (induction b arbitrary: a) (auto simp add: update_conv')

lemma show_nat_digits: "c \<in> set (show_nat n) \<Longrightarrow> \<exists>d < 10. c = digit_char d"
proof (induction n rule: show_nat.induct)
  case (1 n)
  show ?case
  proof (cases "n < 10")
    case True
    with 1(2) show ?thesis by (subst (asm) show_nat.simps) auto
  next
    case False
    from 1(2) have "c \<in> set (show_nat (n div 10)) \<or> c = digit_char (n mod 10)"
      using False by (subst (asm) show_nat.simps) auto
    then show ?thesis
    proof
      assume "c \<in> set (show_nat (n div 10))"
      with 1(1) False show ?thesis by simp
    next
      assume "c = digit_char (n mod 10)"
      moreover have "n mod 10 < 10" by simp
      ultimately show ?thesis by blast
    qed
  qed
qed

lemma show_nat_not_counter: "show_nat n \<noteq> ''documents_analyzed''"
proof
  assume "show_nat n = ''documents_analyzed''"
  then have "CHR ''d'' \<in> set (show_nat n)" by simp
  then obtain d where "d < 10" "CHR ''d'' = digit_char d" using show_nat_digits by blast
  then have "(of_char (CHR ''d'') :: nat) = 48 + d" by (simp add: of_char_digit)
  with \<open>d < 10\<close> show False by simp
qed

lemma indexed_keys: "k \<in> fst ` set (indexed i xs) \<Longrightarrow> \<exists>n. k = show_nat n"
  by (induction i xs rule: indexed.induct) auto

lemma spread_counter: "map_of (spread p) ''documents_analyzed'' = fld p ''documents_analyzed''"
proof (cases p)
  case (JArr xs)
  have "''documents_analyzed'' \<notin> fst ` set (indexed 0 xs)"
    using indexed_keys show_nat_not_counter by metis
  with JArr show ?thesis by (simp add: map_of_eq_None_iff)
next
  case (JStr str)
  have "''documents_analyzed'' \<notin> fst ` set (indexed 0 (map (\<lambda>c. JStr [c]) str))"
    using indexed_keys show_nat_not_counter by metis
  with JStr show ?thesis by (simp add: map_of_eq_None_iff)
qed simp_all

lemma counter_of_write:
  "counter_of (kv_write k v s) u
     = (if k = prof_key u then fld v ''documents_analyzed'' else counter_of s u)"
  by (simp add: counter_of_def)

lemma counter_of_schedule [simp]: "counter_of (schedule d u' s) u = counter_of s u"
  by (simp add: counter_of_def)

lemma counter_of_bucket [simp]: "counter_of (s\<lparr>bucket := b\<rparr>) u = counter_of s u"
  by (simp add: counter_of_def)

lemma counter_of_puts [simp]: "counter_of (s\<lparr>puts := q\<rparr>) u = counter_of s u"
  by (simp add: counter_of_def)

lemma index_of_counter: "index_of ''documents_analyzed'' = None"
  using show_nat_not_counter [of "read_nat ''documents_analyzed''"] by (simp add: index_of_def)

lemma map_of_filter_key:
  "Q k \<Longrightarrow> map_of (filter (\<lambda>p. Q (fst p)) ps) k = map_of ps k"
  by (induction ps) auto

lemma map_of_js_order:
  assumes "index_of k = None"
  shows "map_of (js_order ps) k = map_of ps k"
proof -
  let ?ix = "sort_key (\<lambda>p. case index_of (fst p) of Some n \<Rightarrow> n | None \<Rightarrow> 0)
               (filter (\<lambda>p. index_of (fst p) \<noteq> None) ps)"
  from assms have "k \<notin> fst ` set ?ix" by auto
  then have "map_of ?ix k = None" by (simp add: map_of_eq_None_iff)
  then have "map_of (js_order ps) k = map_of (filter (\<lambda>p. index_of (fst p) = None) ps) k"
    by (simp add: js_order_def map_add_def)
  also from assms have "\<dots> = map_of ps k"
    by (rule map_of_filter_key [of "\<lambda>k. index_of k = None"])
  finally show ?thesis .
qed

lemma counter_js_order [simp]:
  "map_of (js_order ps) ''documents_analyzed'' = map_of ps ''documents_analyzed''"
  by (simp add: map_of_js_order index_of_counter)

text \<open>Without the property in the body, the profile to be written has the counter that was read.\<close>

lemma put_profile_read_counter:
  assumes "\<forall>updates. req = Some updates \<longrightarrow> ''documents_analyzed'' \<notin> fst ` set (spread updates)"
      and "put_profile_read P userId req now s = Inr up"
  shows "fld up ''documents_analyzed'' = counter_of s userId"
proof -
  from assms(2) obtain updates cur where
    r: "req = Some updates" and c: "kv_get (prof_key userId) (kv s) = Some cur"
    and u: "up = JObj (js_order (AList.update ''updated_at'' (JStr (toISOString P now))
                          (merge_props (spread cur) (spread updates))))"
    by (auto simp add: put_profile_read_def split: option.splits if_splits)
  from assms(1) r have "''documents_analyzed'' \<notin> fst ` set (spread updates)" by simp
  then have "map_of (merge_props (spread cur) (spread updates)) ''documents_analyzed''
          = fld cur ''documents_analyzed''"
    by (simp add: map_of_merge_props spread_counter)
  with u c show ?thesis by (simp add: update_conv' counter_of_def)
qed

lemma put_profile_write_counter:
  "counter_of (snd (put_profile_write userId up s)) uid
     = (if uid = userId then fld up ''documents_analyzed'' else counter_of s uid)"
  by (auto simp add: put_profile_write_def counter_of_write)

lemma put_profile_counter:
  assumes "\<forall>updates. req = Some updates \<longrightarrow> ''documents_analyzed'' \<notin> fst ` set (spread updates)"
  shows "counter_of (snd (put_profile_handler P userId req now s)) uid = counter_of s uid"
proof (cases "put_profile_read P userId req now s")
  case (Inl r)
  then show ?thesis by (simp add: put_profile_handler_def)
next
  case (Inr up)
  with put_profile_read_counter [OF assms Inr] show ?thesis
    by (simp add: put_profile_handler_def put_profile_write_counter)
qed

lemma upload_counter:
  "counter_of (snd (upload_handler P userId fd e s)) uid = counter_of s uid"
  using upload_effect [of P userId fd e s] by (auto simp add: counter_of_write)

lemma signup_counter:
  assumes "kv_get (prof_key uid) (kv s) \<noteq> None" and "enabled del (Signup req created now) s"
  shows "counter_of (snd (signup_handler P req created now s)) uid = counter_of s uid"
  using signup_effect [of P req created now s] assms
  by (auto simp add: counter_of_write)

text \<open>The two steps of \<open>PUT /profile\<close> in the system.\<close>

lemma put_read_exec:
  "counter_of (exec P (PutRead userId req now) s) uid = counter_of s uid"
  "put_profile_read P userId req now s = Inr up
     \<Longrightarrow> puts (exec P (PutRead userId req now) s) = puts s @ [(userId, up)]"
  by (simp_all split: sum.splits)

lemma put_write_exec:
  "i < length (puts s) \<Longrightarrow>
   counter_of (exec P (PutWrite i) s) uid
     = (if uid = fst (puts s ! i) then fld (snd (puts s ! i)) ''documents_analyzed''
        else counter_of s uid)"
  by (simp add: put_profile_write_counter)

text \<open>
  C3, amended. A \<open>PUT /profile\<close> whose body has no \<open>documents_analyzed\<close> property builds,
  from the profile it reads, a profile with the counter it read; its read changes no
  counter and leaves that profile waiting to be written; its write stores the waiting
  profile and touches no other user's. So when nothing writes the profile between the read
  and the write of the handler, the counter after the request is the counter before it.
  An upload and the signup of a new user leave the counter as it is.
\<close>

theorem requests_keep_counter:
  "((\<forall>updates. req = Some updates \<longrightarrow> ''documents_analyzed'' \<notin> fst ` set (spread updates))
      \<longrightarrow> (\<forall>up. put_profile_read P userId req now s = Inr up
                \<longrightarrow> fld up ''documents_analyzed'' = counter_of s userId)
        \<and> counter_of (snd (put_profile_handler P userId req now s)) uid = counter_of s uid)
   \<and> counter_of (exec P (PutRead userId req now) s) uid = counter_of s uid
   \<and> (\<forall>up. put_profile_read P userId req now s = Inr up
          \<longrightarrow> puts (exec P (PutRead userId req now) s) = puts s @ [(userId, up)])
   \<and> (i < length (puts s) \<longrightarrow>
        counter_of (exec P (PutWrite i) s) uid
          = (if uid = fst (puts s ! i) then fld (snd (puts s ! i)) ''documents_analyzed''
             else counter_of s uid))
   \<and> counter_of (snd (upload_handler P userId fd e s)) uid = counter_of s uid
   \<and> (kv_get (prof_key uid) (kv s) \<noteq> None \<and> enabled del (Signup sreq created now') s
      \<longrightarrow> counter_of (snd (signup_handler P sreq created now' s)) uid = counter_of s uid)"
  using put_profile_counter [of req P userId now s uid] upload_counter [of P userId fd e s uid]
    signup_counter [of uid s del sreq created now' P]
    put_profile_read_counter [of req P userId now s]
    put_read_exec(1) [where P = P and userId = userId and req = req and now = now and s = s
      and uid = uid]
    put_read_exec(2) [where P = P and userId = userId and req = req and now = now and s = s]
    put_write_exec [where i = i and s = s and P = P and uid = uid]
  by blast

lemmas signup_simps = sys_signed_up_def signup_u1_def signup_handler_def new_profile_def
  opt_prop_def init_sys_def counter_of_def put_profile_handler_def put_profile_read_def
  put_profile_write_def Let_def merge_props_def json_response_def

lemma reachable_signed_up: "reachable test_platform del sys_signed_up"
  unfolding sys_signed_up_def
  by (rule reachable_step [OF reachable_init]) (simp add: signup_u1_def init_sys_def)

text \<open>
  C3 as stated fails: a \<open>PUT /profile\<close> whose body carries \<open>documents_analyzed\<close> overwrites
  the counter of an existing profile.
\<close>

theorem put_profile_counter_counterexample:
  "reachable test_platform False sys_signed_up
   \<and> counter_of sys_signed_up ''u1'' = Some (JNum 0)
   \<and> counter_of (snd (put_profile_handler test_platform ''u1''
                        (Some (JObj [(''documents_analyzed'', JNum 99)])) 5000 sys_signed_up)) ''u1''
       = Some (JNum 99)"
  using reachable_signed_up [of False] by (simp add: signup_simps)

theorem requests_keep_counter_witness:
  "counter_of (snd (put_profile_handler test_platform ''u1''
                      (Some (JObj [(''name'', JStr ''Ann B'')])) 5000 sys_signed_up)) ''u1''
     = Some (JNum 0)"
proof -
  have "counter_of sys_signed_up ''u1'' = Some (JNum 0)" by (simp add: signup_simps)
  with requests_keep_counter [where req = "Some (JObj [(''name'', JStr ''Ann B'')])"
         and P = test_platform and userId = "''u1''" and now = 5000 and s = sys_signed_up
         and uid = "''u1''"]
  show ?thesis by simp
qed

section \<open>Steps of one runner\<close>

lemma tick_Finished: "runners s d = Some (u, Finished) \<Longrightarrow> tick P t d s = s"
  by (simp add: tick_def map_upd_triv)

lemma bumped_obj: "is_obj pr \<Longrightarrow>
  assign ''documents_analyzed'' (counter_next P (fld pr ''documents_analyzed'')) pr = Inr (bumped P pr)"
  by (cases pr) (simp_all add: bumped_def)

lemma counter_bumped:
  "is_obj pr \<Longrightarrow> fld (bumped P pr) ''documents_analyzed''
     = Some (counter_next P (fld pr ''documents_analyzed''))"
  by (cases pr) (simp_all add: bumped_def update_conv')

lemma run_alone_Cons: "run_alone P d (t # ts) s = run_alone P d ts (tick P t d s)"
  by (simp add: run_alone_def)

lemma runner_step_writes:
  "runner_step P t d u p s = (p', s') \<Longrightarrow>
   s' = s \<or> (\<exists>k v. s' = kv_write k v s \<and> (k = doc_key d \<or> k = ana_key d \<or> k = prof_key u))"
proof (cases p)
  case (Loop_get sts)
  assume "runner_step P t d u p s = (p', s')"
  with Loop_get show ?thesis
    by (cases sts) (auto split: option.splits if_splits sum.splits)
next
  case Profile_get
  assume "runner_step P t d u p s = (p', s')"
  with Profile_get show ?thesis
    by (auto split: option.splits if_splits sum.splits)
qed auto

lemma tick_frame:
  assumes "d' \<noteq> d"
  shows "runners (tick P t d s) d' = runners s d'
       \<and> kv_get (doc_key d') (kv (tick P t d s)) = kv_get (doc_key d') (kv s)"
proof (cases "runners s d")
  case None
  then show ?thesis by (simp add: tick_None)
next
  case (Some r)
  obtain u p where "r = (u, p)" by (cases r)
  with Some have run: "runners s d = Some (u, p)" by simp
  obtain p' s' where st: "runner_step P t d u p s = (p', s')" by force
  from runner_step_writes [OF st] assms
  have "runners s' = runners s \<and> kv_get (doc_key d') (kv s') = kv_get (doc_key d') (kv s)"
    by auto
  with tick_Some [OF run st] assms show ?thesis by simp
qed

lemma run_alone_frame:
  assumes "d' \<noteq> d"
  shows "runners (run_alone P d ts s) d' = runners s d'
       \<and> kv_get (doc_key d') (kv (run_alone P d ts s)) = kv_get (doc_key d') (kv s)"
  using tick_frame [OF assms, of P]
  by (induction ts arbitrary: s) (simp_all add: run_alone_def)

lemmas two_simps = sys_two_pending_def sys_two_done_def sys_one_pending_def upload_d2_def
  signup_u1_def signup_handler_def new_profile_def opt_prop_def counter_of_def
  status_complete_def doc_status_def run_simps

lemma reachable_one_pending: "reachable test_platform del sys_one_pending"
  unfolding sys_one_pending_def
  by (rule reachable_execs [OF reachable_init]) (simp add: two_simps)

lemma reachable_two_pending: "reachable test_platform del sys_two_pending"
  unfolding sys_two_pending_def
  by (rule reachable_execs [OF reachable_init]) (simp add: two_simps)

lemma all_enabled_ticks: "all_enabled P del (map (\<lambda>i. Tick (f i) (g i)) xs) s"
  by (induction xs arbitrary: s) simp_all

lemma all_enabled_append:
  "all_enabled P del (as @ bs) s \<longleftrightarrow> all_enabled P del as s \<and> all_enabled P del bs (execs P as s)"
  by (induction as arbitrary: s) simp_all

lemma reachable_two_done: "reachable test_platform del sys_two_done"
  unfolding sys_two_done_def
  by (rule reachable_execs [OF reachable_two_pending])
     (simp add: all_enabled_append ticks_def all_enabled_ticks)

lemma execs_append: "execs P (as @ bs) s = execs P bs (execs P as s)"
  by (induction as arbitrary: s) simp_all

lemma execs_ticks: "execs P (ticks d t n) s = run_alone P d (map (\<lambda>i. t + i) [0..<n]) s"
  by (simp add: ticks_def run_alone_def comp_def)

lemma reachable_run_alone: "reachable P del s \<Longrightarrow> reachable P del (run_alone P d ts s)"
  unfolding run_alone_def
  by (rule reachable_execs) (simp_all add: all_enabled_ticks)

lemma reachable_is_obj:
  assumes "reachable P del s"
  shows "\<forall>v. kv_get (doc_key d) (kv s) = Some v \<longrightarrow> is_obj v"
    and "\<forall>pr. kv_get (prof_key u) (kv s) = Some pr \<longrightarrow> is_obj pr"
proof -
  from assms have "prof_inv (kv s)" using reachable_inv_store by (simp add: inv_store_def)
  then show "\<forall>pr. kv_get (prof_key u) (kv s) = Some pr \<longrightarrow> is_obj pr"
    by (simp add: prof_inv_def)
  show "\<forall>v. kv_get (doc_key d) (kv s) = Some v \<longrightarrow> is_obj v"
    using doc_record_wf [OF assms] by (auto simp add: doc_wf_def)
qed

lemma counter_of_Some:
  "counter_of s u = Some c \<Longrightarrow> \<exists>pr. kv_get (prof_key u) (kv s) = Some pr \<and> fld pr ''documents_analyzed'' = Some c"
  by (auto simp add: counter_of_def split: option.splits)

section \<open>The history of a Document record\<close>

lemma hist_write:
  "hist (kv_write k v s) d = (if k = doc_key d then hist s d @ [doc_state v] else hist s d)"
  by (simp add: hist_def)

lemma hist_frame [simp]:
  "hist (s\<lparr>runners := r\<rparr>) d = hist s d"
  "hist (s\<lparr>bucket := b\<rparr>) d = hist s d"
  "hist (schedule d' u s) d = hist s d"
  "hist (s\<lparr>kv := st\<rparr>) d = hist s d"
  "hist (s\<lparr>puts := q\<rparr>) d = hist s d"
  by (simp_all add: hist_def)

lemma staged_state: "staged st v \<Longrightarrow> doc_state v = as_state (stage_pair st)"
  by (simp add: staged_def doc_state_def as_state_def stage_pair_def)

lemma status_sequence_stages: "status_sequence = (''pending'', 0) # map stage_pair stages"
  by (simp add: status_sequence_def stages_def stage_pair_def)

lemma pc_done_prefix: "pc_done p dn \<Longrightarrow> prefix dn stages"
  by (cases p) (auto simp add: prefix_def)

lemma pc_done_past: "pc_done p dn \<Longrightarrow> past_loop p \<Longrightarrow> dn = stages"
  by (cases p) auto

text \<open>One step of the runner of \<open>d\<close> keeps the history of \<open>d\<close> in line with its control point.\<close>

lemma runner_step_hist:
  assumes ri: "runner_inv P (kv s) d u p" and pi: "prof_inv (kv s)"
      and pres: "kv_get (doc_key d) (kv s) \<noteq> None"
      and dn: "pc_done p dn"
      and h: "hist s d = map as_state ((''pending'', 0) # map stage_pair dn)"
      and st: "runner_step P now d u p s = (p', s')"
  shows "kv_get (doc_key d) (kv s') \<noteq> None
       \<and> (\<exists>dn'. pc_done p' dn' \<and> hist s' d = map as_state ((''pending'', 0) # map stage_pair dn'))"
proof (cases p)
  case (Loop_get sts)
  show ?thesis
  proof (cases sts)
    case Nil
    with Loop_get st have "p' = Profile_get" "s' = kv_write (ana_key d) (mock_analysis P d now) s"
      by auto
    moreover from Loop_get Nil dn have "pc_done Profile_get dn" by simp
    ultimately show ?thesis using pres h by (auto simp add: hist_write)
  next
    case (Cons sg rest)
    from pres obtain v where v: "kv_get (doc_key d) (kv s) = Some v" by auto
    with ri have wf: "doc_wf P u v" by (simp add: runner_inv_def)
    then obtain v' where v': "set_stage sg v = Inr v'" "staged sg v'"
      using set_stage_wf by blast
    from wf have "truthy v" by (simp add: doc_wf_def is_obj_truthy)
    with Loop_get Cons st v v' have "p' = Loop_set rest v'" "s' = s" by auto
    moreover from Loop_get Cons dn v' have "pc_done (Loop_set rest v') dn" by auto
    ultimately show ?thesis using pres h by blast
  qed
next
  case (Loop_set rest v)
  with st have e: "p' = Loop_get rest" "s' = kv_write (doc_key d) v s" by auto
  from Loop_set dn obtain sg where sg: "stages = dn @ sg # rest" "staged sg v" by auto
  then have "pc_done (Loop_get rest) (dn @ [sg])" by simp
  moreover from h sg(2) have "hist s' d = map as_state ((''pending'', 0) # map stage_pair (dn @ [sg]))"
    using e by (simp add: hist_write staged_state)
  moreover have "kv_get (doc_key d) (kv s') \<noteq> None" using e by simp
  ultimately show ?thesis using e(1) by blast
next
  case Profile_get
  from runner_step_inv [OF ri pi st] have "p' \<noteq> Crashed"
    by (auto simp add: runner_inv_def)
  with Profile_get st have "s' = s" "p' = Finished \<or> (\<exists>v. p' = Profile_set v)"
    by (auto split: option.splits if_splits sum.splits)
  moreover from Profile_get dn have "pc_done Finished dn" "\<And>v. pc_done (Profile_set v) dn"
    by simp_all
  ultimately show ?thesis using pres h by auto
next
  case (Profile_set v)
  with st have "p' = Finished" "s' = kv_write (prof_key u) v s" by auto
  moreover from Profile_set dn have "pc_done Finished dn" by simp
  ultimately show ?thesis using pres h by (auto simp add: hist_write)
next
  case Finished
  with st dn pres h show ?thesis by auto
next
  case Crashed
  with dn show ?thesis by simp
qed

lemma hist_inv_cong:
  "runners s' d = runners s d \<Longrightarrow> kv_get (doc_key d) (kv s') = kv_get (doc_key d) (kv s)
   \<Longrightarrow> hist s' d = hist s d \<Longrightarrow> hist_inv s' d = hist_inv s d"
  by (simp add: hist_inv_def split: option.split)

lemma hist_inv_tick:
  assumes inv: "inv_store P s" and hi: "\<And>d. hist_inv s d"
  shows "hist_inv (tick P now d s) d'"
proof (cases "runners s d")
  case None
  then show ?thesis using hi by (simp add: tick_None)
next
  case (Some r)
  obtain u p where "r = (u, p)" by (cases r)
  with Some have run: "runners s d = Some (u, p)" by simp
  obtain p' s' where st: "runner_step P now d u p s = (p', s')" by force
  from inv have "doc_inv P (kv s) (runners s) d" and pi: "prof_inv (kv s)"
    by (simp_all add: inv_store_def)
  with run have ri: "runner_inv P (kv s) d u p" by (simp add: doc_inv_def)
  have t: "tick P now d s = s'\<lparr>runners := (runners s')(d \<mapsto> (u, p'))\<rparr>"
    using run st by (rule tick_Some)
  from runner_step_writes [OF st]
  have rs: "runners s' = runners s"
    and fr: "\<And>e. e \<noteq> d \<Longrightarrow> kv_get (doc_key e) (kv s') = kv_get (doc_key e) (kv s) \<and> hist s' e = hist s e"
    by (auto simp add: hist_write)
  show ?thesis
  proof (cases "d' = d")
    case True
    from hi [of d] run obtain dn where
      pres: "kv_get (doc_key d) (kv s) \<noteq> None" and dn: "pc_done p dn"
      and h: "hist s d = map as_state ((''pending'', 0) # map stage_pair dn)"
      by (auto simp add: hist_inv_def)
    from runner_step_hist [OF ri pi pres dn h st] True t show ?thesis
      by (simp add: hist_inv_def)
  next
    case False
    with fr [of d'] rs t have "hist_inv (tick P now d s) d' = hist_inv s d'"
      by (intro hist_inv_cong) simp_all
    with hi show ?thesis by simp
  qed
qed

lemma hist_inv_prof_write:
  "hist_inv s d \<Longrightarrow> hist_inv (kv_write (prof_key u) v s) d"
  by (rule hist_inv_cong [THEN iffD2]) (simp_all add: hist_write)

lemma hist_new_document: "doc_state (new_document P u n path f e) = as_state (''pending'', 0)"
  by (simp add: doc_state_def new_document_def as_state_def)

lemma hist_inv_upload:
  assumes "\<And>d. hist_inv s d" and "runners s d = None"
  shows "hist_inv (schedule d u (kv_write (doc_key d) (new_document P u n path f e) (s\<lparr>bucket := b\<rparr>))) d'"
proof (cases "d' = d")
  case True
  from assms(1) [of d] assms(2) have "hist s d = []" by (simp add: hist_inv_def)
  moreover have "pc_done (Loop_get stages) []" by simp
  ultimately show ?thesis using True
    unfolding hist_inv_def
    by (simp add: hist_write hist_new_document del: pc_done.simps)
next
  case False
  have "hist_inv (schedule d u (kv_write (doc_key d) (new_document P u n path f e) (s\<lparr>bucket := b\<rparr>))) d'
      = hist_inv s d'"
    using False by (intro hist_inv_cong) (simp_all add: hist_write)
  with assms(1) [of d'] show ?thesis by simp
qed

lemma hist_inv_exec:
  assumes "inv_store P s" and "\<And>d. hist_inv s d" and "enabled False a s"
  shows "hist_inv (exec P a s) d'"
proof (cases a)
  case (Signup req created now)
  with assms(2) [of d'] signup_effect [of P req created now s] show ?thesis
    by (auto simp add: hist_inv_prof_write)
next
  case (PutRead u req now)
  have "hist_inv (exec P a s) d' = hist_inv s d'"
    using PutRead by (intro hist_inv_cong) (simp_all split: sum.splits)
  with assms(2) [of d'] show ?thesis by simp
next
  case (PutWrite i)
  have "hist_inv (exec P a s) d' = hist_inv s d'"
    using PutWrite by (intro hist_inv_cong) (simp_all add: put_profile_write_def hist_write)
  with assms(2) [of d'] show ?thesis by simp
next
  case (Upload u fd e)
  with assms upload_effect [of P u fd e s] show ?thesis
    by (auto simp add: hist_inv_upload)
next
  case (Tick d now)
  with assms show ?thesis by (simp add: hist_inv_tick)
next
  case (Delete d)
  with assms(3) show ?thesis by simp
qed

lemma reachable_hist_inv: "reachable P False s \<Longrightarrow> hist_inv s d"
proof (induction arbitrary: d rule: reachable.induct)
  case reachable_init
  show ?case by (simp add: hist_inv_def init_sys_def hist_def)
next
  case (reachable_step s a)
  from reachable_step(1) have "inv_store P s" by (rule reachable_inv_store)
  then show ?case using reachable_step(3,2) by (rule hist_inv_exec)
qed

lemma status_sequence_sorted: "sorted (map snd status_sequence)"
  by (simp add: status_sequence_def)

lemma status_sequence_100: "\<forall>x \<in> set status_sequence. snd x = 100 \<longrightarrow> fst x = ''complete''"
  by (simp add: status_sequence_def)

text \<open>
  C1. In every state the server reaches (nothing outside it deletes a record), the values
  written to the Document record of a document are an initial part of pending/0,
  extracting/25, classifying/50, analyzing/75, complete/100, in this order: so progress
  never decreases and is 100 only with status \<open>complete\<close>. Once the runner has gone
  through its stage sequence they are the whole sequence: one write by the upload and
  exactly four updates by the runner.
\<close>

theorem status_history:
  assumes "reachable P False s"
  shows "\<exists>ps. hist s d = map as_state ps \<and> prefix ps status_sequence
            \<and> sorted (map snd ps)
            \<and> (\<forall>x \<in> set ps. snd x = 100 \<longrightarrow> fst x = ''complete'')
            \<and> (\<forall>u p. runners s d = Some (u, p) \<and> past_loop p \<longrightarrow> ps = status_sequence)"
proof -
  have "\<exists>ps. hist s d = map as_state ps \<and> prefix ps status_sequence
            \<and> (\<forall>u p. runners s d = Some (u, p) \<and> past_loop p \<longrightarrow> ps = status_sequence)"
  proof (cases "runners s d")
    case None
    with reachable_hist_inv [OF assms, of d] have "hist s d = map as_state []"
      by (simp add: hist_inv_def)
    with None show ?thesis by (intro exI [of _ "[]"]) simp
  next
    case (Some r)
    obtain u p where "r = (u, p)" by (cases r)
    with Some reachable_hist_inv [OF assms, of d] obtain dn where
      dn: "pc_done p dn" and h: "hist s d = map as_state ((''pending'', 0) # map stage_pair dn)"
      by (auto simp add: hist_inv_def)
    from pc_done_prefix [OF dn] have "prefix ((''pending'', 0) # map stage_pair dn) status_sequence"
      by (simp add: status_sequence_stages map_mono_prefix)
    moreover from dn have "past_loop p \<longrightarrow> (''pending'', 0) # map stage_pair dn = status_sequence"
      using pc_done_past [of p dn] by (auto simp add: status_sequence_stages)
    ultimately show ?thesis using h Some \<open>r = (u, p)\<close> by (intro exI [of _ "(''pending'', 0) # map stage_pair dn"]) simp
  qed
  then obtain ps where ps: "hist s d = map as_state ps" "prefix ps status_sequence"
     "\<forall>u p. runners s d = Some (u, p) \<and> past_loop p \<longrightarrow> ps = status_sequence"
    by blast
  from ps(2) obtain zs where zs: "status_sequence = ps @ zs" by (auto simp add: prefix_def)
  have "sorted (map snd (ps @ zs))" using status_sequence_sorted unfolding zs .
  then have "sorted (map snd ps)" by (simp add: sorted_append)
  moreover have "\<forall>x \<in> set (ps @ zs). snd x = 100 \<longrightarrow> fst x = ''complete''"
    using status_sequence_100 unfolding zs .
  then have "\<forall>x \<in> set ps. snd x = 100 \<longrightarrow> fst x = ''complete''"
    by simp
  ultimately show ?thesis using ps by blast
qed

theorem status_history_witness:
  "reachable test_platform False sys_analysed
   \<and> runners sys_analysed ''d1'' = Some (''u1'', Profile_get)
   \<and> hist sys_analysed ''d1''
      = [(Some (JStr ''pending''), Some (JNum 0)), (Some (JStr ''extracting''), Some (JNum 25)),
         (Some (JStr ''classifying''), Some (JNum 50)), (Some (JStr ''analyzing''), Some (JNum 75)),
         (Some (JStr ''complete''), Some (JNum 100))]"
proof -
  have r: "reachable test_platform False sys_analysed" by (rule reachable_analysed)
  have p: "runners sys_analysed ''d1'' = Some (''u1'', Profile_get)"
    by (simp add: sys_analysed_def run_simps)
  from status_history [OF r, of "''d1''"] p
  have "hist sys_analysed ''d1'' = map as_state status_sequence" by auto
  with r p show ?thesis by (simp add: status_sequence_def as_state_def)
qed

section \<open>The counter along a run of the system\<close>

lemma prof_phase_cong:
  "kv_get (prof_key u) (kv s') = kv_get (prof_key u) (kv s)
   \<Longrightarrow> prof_phase P u pr0 p s' = prof_phase P u pr0 p s"
  by (cases p) simp_all

lemma prof_phase_runners [simp]:
  "prof_phase P u pr0 p (s\<lparr>runners := r\<rparr>) = prof_phase P u pr0 p s"
  by (rule prof_phase_cong) simp

lemma prof_phase_write [simp]:
  "k \<noteq> prof_key u \<Longrightarrow> prof_phase P u pr0 p (kv_write k v s) = prof_phase P u pr0 p s"
  by (rule prof_phase_cong) simp

lemma prof_step:
  assumes inv: "inv_store P s" and run: "runners s d = Some (u, p)"
      and ok: "prof_phase P u pr0 p s" and nf: "p \<noteq> Finished"
  shows "\<exists>p'. runners (tick P t d s) d = Some (u, p')
             \<and> prof_phase P u pr0 p' (tick P t d s) \<and> steps_left p' < steps_left p"
proof -
  from inv have "doc_inv P (kv s) (runners s) d" and pi: "prof_inv (kv s)"
    by (simp_all add: inv_store_def)
  with run have ri: "runner_inv P (kv s) d u p" by (simp add: doc_inv_def)
  show ?thesis
  proof (cases p)
    case (Loop_get sts)
    show ?thesis
    proof (cases sts)
      case Nil
      with Loop_get run have "tick P t d s =
          (kv_write (ana_key d) (mock_analysis P d t) s)
            \<lparr>runners := (runners s)(d \<mapsto> (u, Profile_get))\<rparr>"
        by (simp add: tick_def)
      with ok Loop_get Nil show ?thesis by simp
    next
      case (Cons sg rest)
      show ?thesis
      proof (cases "kv_get (doc_key d) (kv s)")
        case None
        with Loop_get Cons run
        have "tick P t d s = s\<lparr>runners := (runners s)(d \<mapsto> (u, Loop_get rest))\<rparr>"
          by (simp add: tick_def)
        with ok Loop_get Cons show ?thesis by simp
      next
        case (Some v)
        with ri have wf: "doc_wf P u v" by (simp add: runner_inv_def)
        then obtain v' where v': "set_stage sg v = Inr v'" using set_stage_wf by blast
        from wf have "truthy v" by (simp add: doc_wf_def is_obj_truthy)
        with Loop_get Cons run Some v'
        have "tick P t d s = s\<lparr>runners := (runners s)(d \<mapsto> (u, Loop_set rest v'))\<rparr>"
          by (simp add: tick_def)
        with ok Loop_get Cons show ?thesis by simp
      qed
    qed
  next
    case (Loop_set rest v)
    with run have "tick P t d s =
        (kv_write (doc_key d) v s)\<lparr>runners := (runners s)(d \<mapsto> (u, Loop_get rest))\<rparr>"
      by (simp add: tick_def)
    with ok Loop_set show ?thesis by simp
  next
    case Profile_get
    with ok have pr0: "kv_get (prof_key u) (kv s) = pr0" by simp
    show ?thesis
    proof (cases pr0)
      case None
      with pr0 Profile_get run
      have "tick P t d s = s\<lparr>runners := (runners s)(d \<mapsto> (u, Finished))\<rparr>"
        by (simp add: tick_def)
      with pr0 None Profile_get show ?thesis by simp
    next
      case (Some pr)
      with pr0 pi have o: "is_obj pr" by (simp add: prof_inv_def)
      with pr0 Profile_get run Some
      have "tick P t d s = s\<lparr>runners := (runners s)(d \<mapsto> (u, Profile_set (bumped P pr)))\<rparr>"
        by (simp add: tick_def is_obj_truthy bumped_obj)
      with pr0 Some Profile_get show ?thesis by simp
    qed
  next
    case (Profile_set v)
    with run have "tick P t d s =
        (kv_write (prof_key u) v s)\<lparr>runners := (runners s)(d \<mapsto> (u, Finished))\<rparr>"
      by (simp add: tick_def)
    with ok Profile_set show ?thesis by auto
  next
    case Finished
    with nf show ?thesis by simp
  next
    case Crashed
    with ok show ?thesis by simp
  qed
qed

lemma other_action_runner:
  assumes "\<not> is_tick_of d a" and "enabled del a s" and "runners s d = Some r"
  shows "runners (exec P a s) d = Some r"
proof (cases a)
  case (Signup req created now)
  with assms(3) signup_effect [of P req created now s] show ?thesis by auto
next
  case (PutRead u req now)
  with assms(3) show ?thesis by (simp split: sum.splits)
next
  case (PutWrite i)
  with assms(3) show ?thesis by (simp add: put_profile_write_def)
next
  case (Upload u fd e)
  with assms(2,3) have "env_uuid e \<noteq> d" by auto
  with Upload assms(3) upload_effect [of P u fd e s] show ?thesis by auto
next
  case (Tick d' now)
  with assms(1) have "d \<noteq> d'" by simp
  with Tick assms(3) tick_frame [of d d' P now s] show ?thesis by simp
next
  case (Delete d')
  with assms(3) show ?thesis by simp
qed

lemma quiet_run:
  "reachable P del s \<Longrightarrow> runners s d = Some (u, p) \<Longrightarrow> prof_phase P u pr0 p s
   \<Longrightarrow> all_enabled P del as s \<Longrightarrow> quiet P d u as s
   \<Longrightarrow> steps_left p \<le> length (filter (is_tick_of d) as)
   \<Longrightarrow> runners (execs P as s) d = Some (u, Finished)
       \<and> prof_phase P u pr0 Finished (execs P as s)"
proof (induction as arbitrary: s p)
  case Nil
  from Nil(6) have "steps_left p = 0" by simp
  with Nil(3) have "p = Finished" by (cases p) simp_all
  with Nil(2,3) show ?case by simp
next
  case (Cons a as)
  let ?s1 = "exec P a s"
  from Cons.prems(4) have ena: "enabled del a s" and en: "all_enabled P del as ?s1"
    by simp_all
  from Cons.prems(1) ena have r': "reachable P del ?s1" by (rule reachable_step)
  from Cons.prems(5) have q: "quiet P d u as ?s1" by simp
  have ex: "execs P (a # as) s = execs P as ?s1" by simp
  show ?case
  proof (cases "is_tick_of d a")
    case True
    then obtain t where a: "a = Tick d t" by (cases a) simp_all
    then have tk: "?s1 = tick P t d s" by simp
    from True Cons.prems(6)
    have cnt: "steps_left p \<le> Suc (length (filter (is_tick_of d) as))" by simp
    show ?thesis
    proof (cases "p = Finished")
      case True
      with Cons.prems(2) tk have same: "?s1 = s" by (simp add: tick_Finished)
      from True have "steps_left p \<le> length (filter (is_tick_of d) as)" by simp
      from Cons.IH [OF r' _ _ en q this] Cons.prems(2,3) same
      show ?thesis unfolding ex by simp
    next
      case False
      from Cons.prems(1) have "inv_store P s" by (rule reachable_inv_store)
      from prof_step [OF this Cons.prems(2,3) False, of t] obtain p' where
        p': "runners (tick P t d s) d = Some (u, p')" "prof_phase P u pr0 p' (tick P t d s)"
            "steps_left p' < steps_left p"
        by blast
      from p'(3) cnt have "steps_left p' \<le> length (filter (is_tick_of d) as)" by simp
      from Cons.IH [OF r' _ _ en q this] p'(1,2) tk
      show ?thesis unfolding ex by simp
    qed
  next
    case False
    from other_action_runner [OF False ena Cons.prems(2)]
    have run': "runners ?s1 d = Some (u, p)" .
    from False Cons.prems(5)
    have "kv_get (prof_key u) (kv ?s1) = kv_get (prof_key u) (kv s)" by simp
    then have "prof_phase P u pr0 p ?s1 = prof_phase P u pr0 p s" by (rule prof_phase_cong)
    with Cons.prems(3) have ok': "prof_phase P u pr0 p ?s1" by simp
    from False Cons.prems(6) have "steps_left p \<le> length (filter (is_tick_of d) as)" by simp
    from Cons.IH [OF r' run' ok' en q this]
    show ?thesis unfolding ex .
  qed
qed

lemma reachable_present:
  assumes "reachable P False s" and "runners s d = Some (u, p)"
  shows "kv_get (doc_key d) (kv s) \<noteq> None"
  using reachable_hist_inv [OF assms(1), of d] assms(2) by (simp add: hist_inv_def)

lemma quiet_run_counter:
  assumes reach: "reachable P del s"
      and run: "runners s d = Some (u, Loop_get stages)"
      and en: "all_enabled P del as s"
      and q: "quiet P d u as s"
      and n: "11 \<le> length (filter (is_tick_of d) as)"
  shows "runners (execs P as s) d = Some (u, Finished)
       \<and> (kv_get (doc_key d) (kv (execs P as s)) \<noteq> None \<longrightarrow> status_complete (execs P as s) d)
       \<and> (\<not> del \<longrightarrow> status_complete (execs P as s) d)
       \<and> (kv_get (prof_key u) (kv s) = None \<longrightarrow> kv_get (prof_key u) (kv (execs P as s)) = None)
       \<and> (\<forall>pr. kv_get (prof_key u) (kv s) = Some pr
             \<longrightarrow> counter_of (execs P as s) u = Some (counter_next P (fld pr ''documents_analyzed'')))
       \<and> (\<forall>pr c. kv_get (prof_key u) (kv s) = Some pr
                 \<and> fld pr ''documents_analyzed'' = Some (JNum c) \<and> safe_int c
             \<longrightarrow> counter_of (execs P as s) u = Some (JNum (c + 1)))
       \<and> (\<forall>pr. kv_get (prof_key u) (kv s) = Some pr \<and> fld pr ''documents_analyzed'' = None
             \<longrightarrow> counter_of (execs P as s) u = Some (JNum 1))"
proof -
  let ?pr0 = "kv_get (prof_key u) (kv s)"
  let ?s' = "execs P as s"
  have ok: "prof_phase P u ?pr0 (Loop_get stages) s" by simp
  have "steps_left (Loop_get stages) \<le> length (filter (is_tick_of d) as)"
    using n by (simp add: stages_def)
  from quiet_run [OF reach run ok en q this]
  have fin: "runners ?s' d = Some (u, Finished)"
    and pf: "kv_get (prof_key u) (kv ?s') = map_option (bumped P) ?pr0"
    by simp_all
  have r': "reachable P del ?s'" using reach en by (rule reachable_execs)
  from r' fin have "runner_inv P (kv ?s') d u Finished" by (rule runner_inv_of)
  then have c1: "kv_get (doc_key d) (kv ?s') \<noteq> None \<longrightarrow> status_complete ?s' d"
    by (auto simp add: runner_inv_def status_complete_def doc_status_def is_complete_def)
  have c1': "\<not> del \<longrightarrow> status_complete ?s' d"
  proof
    assume "\<not> del"
    with r' have "reachable P False ?s'" by simp
    from reachable_present [OF this fin] c1 show "status_complete ?s' d" by simp
  qed
  have c2: "?pr0 = None \<longrightarrow> kv_get (prof_key u) (kv ?s') = None"
    using pf by simp
  have c3: "counter_of ?s' u = Some (counter_next P (fld pr ''documents_analyzed''))"
    if "?pr0 = Some pr" for pr
  proof -
    from reach have "prof_inv (kv s)" using reachable_inv_store by (simp add: inv_store_def)
    with that have "is_obj pr" by (simp add: prof_inv_def)
    with that pf show ?thesis by (simp add: counter_of_def counter_bumped)
  qed
  have c4: "counter_of ?s' u = Some (JNum (c + 1))"
    if "?pr0 = Some pr" "fld pr ''documents_analyzed'' = Some (JNum c)" "safe_int c" for pr c
    using c3 [OF that(1)] that(2,3) by simp
  have c5: "counter_of ?s' u = Some (JNum 1)"
    if "?pr0 = Some pr" "fld pr ''documents_analyzed'' = None" for pr
    using c3 [OF that(1)] that(2) by simp
  from fin c1 c1' c2 c3 c4 c5 show ?thesis by blast
qed

text \<open>
  C7, amended. From a reachable state in which the analysis of a document has not started,
  take any run of the system in which the runner of the document takes its eleven steps
  and no other action changes the stored profile of the owner. At its end the runner has
  finished; the Document record, if nothing has deleted it, has status \<open>complete\<close>; the
  counter of the owner is \<open>(c || 0) + 1\<close> for the counter \<open>c\<close> stored at the start, which is
  \<open>c + 1\<close> for an integer \<open>c\<close> below \<open>2^53\<close> in magnitude and 1 for a missing counter; and where
  there was no Profile record there is none.
\<close>

theorem completion_increments_counter:
  assumes reach: "reachable P del s"
      and run: "runners s d = Some (u, Loop_get stages)"
      and en: "all_enabled P del as s"
      and q: "quiet P d u as s"
      and n: "11 \<le> length (filter (is_tick_of d) as)"
  shows "runners (execs P as s) d = Some (u, Finished)
       \<and> (kv_get (doc_key d) (kv (execs P as s)) \<noteq> None \<longrightarrow> status_complete (execs P as s) d)
       \<and> (\<not> del \<longrightarrow> status_complete (execs P as s) d)
       \<and> (kv_get (prof_key u) (kv s) = None \<longrightarrow> kv_get (prof_key u) (kv (execs P as s)) = None)
       \<and> (\<forall>pr. kv_get (prof_key u) (kv s) = Some pr
             \<longrightarrow> counter_of (execs P as s) u = Some (counter_next P (fld pr ''documents_analyzed'')))
       \<and> (\<forall>pr c. kv_get (prof_key u) (kv s) = Some pr
                 \<and> fld pr ''documents_analyzed'' = Some (JNum c) \<and> safe_int c
             \<longrightarrow> counter_of (execs P as s) u = Some (JNum (c + 1)))
       \<and> (\<forall>pr. kv_get (prof_key u) (kv s) = Some pr \<and> fld pr ''documents_analyzed'' = None
             \<longrightarrow> counter_of (execs P as s) u = Some (JNum 1))"
  using reach run en q n by (rule quiet_run_counter)

lemma quiet_ticks_map: "quiet P d u (map (\<lambda>i. Tick d (g i)) xs) s"
  by (induction xs arbitrary: s) simp_all

lemma quiet_ticks [simp]: "quiet P d u (ticks d t n) s"
  unfolding ticks_def by (rule quiet_ticks_map)

lemma quiet_append:
  "quiet P d u (as @ bs) s \<longleftrightarrow> quiet P d u as s \<and> quiet P d u bs (execs P as s)"
  by (induction as arbitrary: s) simp_all

lemma filter_ticks [simp]: "filter (is_tick_of d) (ticks d t n) = ticks d t n"
  by (simp add: ticks_def filter_map comp_def)

lemma length_ticks [simp]: "length (ticks d t n) = n"
  by (simp add: ticks_def)

lemma all_enabled_ticks' [simp]: "all_enabled P del (ticks d t n) s"
  unfolding ticks_def by (rule all_enabled_ticks)

lemma execs_ticks_frame:
  assumes "d' \<noteq> d"
  shows "runners (execs P (ticks d t n) s) d' = runners s d'"
    and "kv_get (doc_key d') (kv (execs P (ticks d t n) s)) = kv_get (doc_key d') (kv s)"
  using run_alone_frame [OF assms, of P _ s] by (simp_all add: execs_ticks)

text \<open>
  C7 as stated fails: two documents of one user are uploaded, then analysed one after the
  other. When the second has reached \<open>complete\<close> and its runner has finished, the counter
  is 2 above its value before that document's analysis started.
\<close>

theorem counter_two_documents_counterexample:
  "reachable test_platform False sys_two_pending
   \<and> runners sys_two_pending ''d2'' = Some (''u1'', Loop_get stages)
   \<and> doc_status sys_two_pending ''d2'' = Some (JStr ''pending'')
   \<and> counter_of sys_two_pending ''u1'' = Some (JNum 0)
   \<and> sys_two_done = execs test_platform (ticks ''d1'' 2000 11 @ ticks ''d2'' 3000 11) sys_two_pending
   \<and> reachable test_platform False sys_two_done
   \<and> status_complete sys_two_done ''d2''
   \<and> runners sys_two_done ''d2'' = Some (''u1'', Finished)
   \<and> counter_of sys_two_done ''u1'' = Some (JNum 2)"
proof -
  let ?P = test_platform
  let ?s0 = sys_two_pending
  let ?as1 = "ticks ''d1'' 2000 11"
  let ?as2 = "ticks ''d2'' 3000 11"
  let ?s1 = "execs ?P ?as1 ?s0"
  let ?s2 = "execs ?P ?as2 ?s1"
  have r0: "reachable ?P False ?s0" by (rule reachable_two_pending)
  have r1: "reachable ?P False ?s1" using r0 by (rule reachable_execs) simp
  have eq: "sys_two_done = ?s2"
    by (simp only: sys_two_done_def execs_append)
  have r2: "reachable ?P False sys_two_done" by (rule reachable_two_done)
  have a1: "runners ?s0 ''d1'' = Some (''u1'', Loop_get stages)"
    by (simp add: two_simps)
  have a2: "runners ?s0 ''d2'' = Some (''u1'', Loop_get stages)"
    by (simp add: two_simps)
  have b: "doc_status ?s0 ''d2'' = Some (JStr ''pending'')"
    by (simp add: two_simps)
  have c0: "counter_of ?s0 ''u1'' = Some (JNum 0)"
    by (simp add: two_simps)
  have s0: "safe_int 0" and s1: "safe_int 1" by (simp_all add: safe_int_def)
  from c0 obtain pr0 where pr0: "kv_get (prof_key ''u1'') (kv ?s0) = Some pr0"
      "fld pr0 ''documents_analyzed'' = Some (JNum 0)"
    using counter_of_Some by blast
  have "11 \<le> length (filter (is_tick_of ''d1'') ?as1)" by simp
  from quiet_run_counter [OF r0 a1 _ _ this] pr0 s0
  have c1: "counter_of ?s1 ''u1'' = Some (JNum 1)" by simp
  then obtain pr1 where pr1: "kv_get (prof_key ''u1'') (kv ?s1) = Some pr1"
      "fld pr1 ''documents_analyzed'' = Some (JNum 1)"
    using counter_of_Some by blast
  have f: "runners ?s1 ''d2'' = Some (''u1'', Loop_get stages)"
    using execs_ticks_frame(1) [of "''d2''" "''d1''" ?P 2000 11 ?s0] a2 by simp
  have "11 \<le> length (filter (is_tick_of ''d2'') ?as2)" by simp
  from quiet_run_counter [OF r1 f _ _ this] pr1 s1
  have "runners ?s2 ''d2'' = Some (''u1'', Finished)" "status_complete ?s2 ''d2''"
       "counter_of ?s2 ''u1'' = Some (JNum 2)"
    by simp_all
  with eq r0 r2 a2 b c0 show ?thesis by (simp add: sys_two_done_def)
qed

lemma upload_keeps_profile:
  "kv_get (prof_key u) (kv (snd (upload_handler P u' fd e s))) = kv_get (prof_key u) (kv s)"
  using upload_effect [of P u' fd e s] by auto

theorem completion_increments_counter_witness:
  "reachable test_platform False sys_one_pending
   \<and> runners sys_one_pending ''d1'' = Some (''u1'', Loop_get stages)
   \<and> counter_of sys_one_pending ''u1'' = Some (JNum 0)
   \<and> all_enabled test_platform False interleaved_run sys_one_pending
   \<and> quiet test_platform ''d1'' ''u1'' interleaved_run sys_one_pending
   \<and> runners (execs test_platform interleaved_run sys_one_pending) ''d1'' = Some (''u1'', Finished)
   \<and> status_complete (execs test_platform interleaved_run sys_one_pending) ''d1''
   \<and> counter_of (execs test_platform interleaved_run sys_one_pending) ''u1'' = Some (JNum 1)"
proof -
  let ?P = test_platform
  let ?s0 = sys_one_pending
  let ?up = "Upload ''u2'' (form_of pdf_file) (env_at 2500 ''d9'')"
  have r: "reachable ?P False ?s0" by (rule reachable_one_pending)
  have run: "runners ?s0 ''d1'' = Some (''u1'', Loop_get stages)"
    by (simp add: two_simps)
  have c: "counter_of ?s0 ''u1'' = Some (JNum 0)"
    by (simp add: two_simps)
  have fresh: "runners ?s0 ''d9'' = None"
    by (simp add: two_simps)
  have "runners (execs ?P (ticks ''d1'' 2000 4) ?s0) ''d9'' = None"
    using execs_ticks_frame(1) [of "''d9''" "''d1''" ?P 2000 4 ?s0] fresh by simp
  then have en: "all_enabled ?P False interleaved_run ?s0"
    by (simp add: interleaved_run_def all_enabled_append env_at_def)
  have q: "quiet ?P ''d1'' ''u1'' interleaved_run ?s0"
    by (simp add: interleaved_run_def quiet_append upload_keeps_profile)
  have n: "11 \<le> length (filter (is_tick_of ''d1'') interleaved_run)"
    by (simp add: interleaved_run_def)
  have s0: "safe_int 0" by (simp add: safe_int_def)
  from c obtain pr where "kv_get (prof_key ''u1'') (kv ?s0) = Some pr"
      "fld pr ''documents_analyzed'' = Some (JNum 0)"
    using counter_of_Some by blast
  with completion_increments_counter [OF r run en q n] s0
  have "runners (execs ?P interleaved_run ?s0) ''d1'' = Some (''u1'', Finished)"
       "status_complete (execs ?P interleaved_run ?s0) ''d1''"
       "counter_of (execs ?P interleaved_run ?s0) ''u1'' = Some (JNum 1)"
    by simp_all
  with r run c en q show ?thesis by simp
qed

text \<open>
  A \<open>PUT /profile\<close> with no counter in its body, read before and written after the runner
  of a document has finished, takes the counter back from 1 to the 0 it had read.
\<close>

lemma puts_tick: "puts (tick P t d s) = puts s"
proof (cases "runners s d")
  case None
  then show ?thesis by (simp add: tick_None)
next
  case (Some r)
  obtain u p where "r = (u, p)" by (cases r)
  with Some have run: "runners s d = Some (u, p)" by simp
  obtain p' s' where st: "runner_step P t d u p s = (p', s')" by force
  from runner_step_writes [OF st] have "puts s' = puts s" by auto
  with tick_Some [OF run st] show ?thesis by simp
qed

lemma puts_ticks_map: "puts (execs P (map (\<lambda>i. Tick d (g i)) xs) s) = puts s"
  by (induction xs arbitrary: s) (simp_all add: puts_tick)

lemma puts_ticks: "puts (execs P (ticks d t n) s) = puts s"
  unfolding ticks_def by (rule puts_ticks_map)

lemma put_write_undoes_increment:
  "reachable test_platform False (execs test_platform lost_increment_run sys_one_pending)
   \<and> counter_of sys_one_pending ''u1'' = Some (JNum 0)
   \<and> counter_of (execs test_platform
        (PutRead ''u1'' (Some (JObj [(''name'', JStr ''Ann B'')])) 1500 # ticks ''d1'' 2000 11)
        sys_one_pending) ''u1'' = Some (JNum 1)
   \<and> counter_of (execs test_platform lost_increment_run sys_one_pending) ''u1'' = Some (JNum 0)"
proof -
  let ?P = test_platform
  let ?s0 = sys_one_pending
  let ?body = "Some (JObj [(''name'', JStr ''Ann B'')])"
  let ?rd = "PutRead ''u1'' ?body 1500"
  let ?s1 = "exec ?P ?rd ?s0"
  let ?s2 = "execs ?P (ticks ''d1'' 2000 11) ?s1"
  let ?s3 = "exec ?P (PutWrite 0) ?s2"
  have r0: "reachable ?P False ?s0" by (rule reachable_one_pending)
  have c0: "counter_of ?s0 ''u1'' = Some (JNum 0)" by (simp add: two_simps)
  then obtain pr where pr: "kv_get (prof_key ''u1'') (kv ?s0) = Some pr"
      "fld pr ''documents_analyzed'' = Some (JNum 0)"
    using counter_of_Some by blast
  with reachable_is_obj(2) [OF r0] have "truthy pr" by (simp add: is_obj_truthy)
  with pr(1) obtain up where rd: "put_profile_read ?P ''u1'' ?body 1500 ?s0 = Inr up"
    by (simp add: put_profile_read_def)
  have "\<forall>updates. ?body = Some updates \<longrightarrow> ''documents_analyzed'' \<notin> fst ` set (spread updates)"
    by simp
  from put_profile_read_counter [OF this rd] c0
  have upc: "fld up ''documents_analyzed'' = Some (JNum 0)" by simp
  have p0: "puts ?s0 = []" by (simp add: two_simps)
  from rd p0 have s1: "?s1 = ?s0\<lparr>puts := [(''u1'', up)]\<rparr>" by simp
  have r1: "reachable ?P False ?s1" using r0 by (rule reachable_step) simp
  have run1: "runners ?s1 ''d1'' = Some (''u1'', Loop_get stages)"
    unfolding s1 by (simp add: two_simps)
  have k1: "kv_get (prof_key ''u1'') (kv ?s1) = Some pr" unfolding s1 using pr(1) by simp
  have s0: "safe_int 0" by (simp add: safe_int_def)
  have "11 \<le> length (filter (is_tick_of ''d1'') (ticks ''d1'' 2000 11))" by simp
  from quiet_run_counter [OF r1 run1 _ _ this] k1 pr(2) s0
  have c2: "counter_of ?s2 ''u1'' = Some (JNum 1)" by simp
  have "puts ?s2 = [(''u1'', up)]" unfolding puts_ticks s1 by simp
  then have c3: "counter_of ?s3 ''u1'' = Some (JNum 0)"
    using upc by (simp add: put_profile_write_counter)
  have e3: "execs ?P lost_increment_run ?s0 = ?s3"
    by (simp only: lost_increment_run_def execs.simps execs_append)
  have "all_enabled ?P False lost_increment_run ?s0"
    by (simp add: lost_increment_run_def all_enabled_append)
  with r0 have "reachable ?P False (execs ?P lost_increment_run ?s0)" by (rule reachable_execs)
  with c0 c2 c3 e3 show ?thesis by simp
qed

end
